theory Spec2Isabelle
  imports Main "HOL-Library.AList" "HOL-Library.Sublist" "HOL-Library.Multiset"
    "HOL-Library.Char_ord" "HOL-Library.List_Lexorder"
begin

section \<open>JavaScript strings and arrays\<close>

text \<open>
  A JavaScript string is modelled as a \<^typ>\<open>string\<close>: the list of its code units
  (one \<^typ>\<open>char\<close> per code unit, so the model covers code units below 256).
  The library functions the two builders call are written out below with the
  argument order of the method call: receiver first.
\<close>

text \<open>\<^verbatim>\<open>String.prototype.trim\<close> strips white space and line terminators; below 256
  these are TAB, LF, VT, FF, CR, SP and NBSP.\<close>

definition is_white_space :: "char \<Rightarrow> bool" where
  "is_white_space c = ((of_char c :: int) \<in> {9, 10, 11, 12, 13, 32, 160})"

definition js_trim :: "string \<Rightarrow> string" where
  "js_trim s = rev (dropWhile is_white_space (rev (dropWhile is_white_space s)))"

text \<open>\<^verbatim>\<open>s.split(sep)\<close> for a non-empty separator scans from the left and cuts at every
  occurrence of \<open>sep\<close> that does not overlap the previous one; \<open>acc\<close> holds the code
  units read since the last cut. With the empty separator the string is cut into
  its code units.\<close>

function split_from :: "string \<Rightarrow> string \<Rightarrow> string \<Rightarrow> string list" where
  "split_from sep acc [] = [acc]"
| "split_from sep acc (c # cs) =
     (if sep \<noteq> [] \<and> prefix sep (c # cs)
      then acc # split_from sep [] (drop (length sep) (c # cs))
      else split_from sep (acc @ [c]) cs)"
  by pat_completeness auto
termination
  by (relation "measure (\<lambda>(sep, acc, s). length s)") (auto simp: neq_Nil_conv)

definition js_split :: "string \<Rightarrow> string \<Rightarrow> string list" where
  "js_split s sep = (if sep = [] then map (\<lambda>c. [c]) s else split_from sep [] s)"

text \<open>\<^verbatim>\<open>xs.join(sep)\<close>.\<close>

fun js_join :: "string list \<Rightarrow> string \<Rightarrow> string" where
  "js_join [] sep = []"
| "js_join [x] sep = x"
| "js_join (x # y # ys) sep = x @ sep @ js_join (y # ys) sep"

text \<open>\<^verbatim>\<open>s.includes(sub)\<close>.\<close>

fun js_includes :: "string \<Rightarrow> string \<Rightarrow> bool" where
  "js_includes [] sub = (sub = [])"
| "js_includes (c # cs) sub = (prefix sub (c # cs) \<or> js_includes cs sub)"

text \<open>\<^verbatim>\<open>.filter(Boolean)\<close> on an array of strings keeps the non-empty ones.\<close>

definition filter_Boolean :: "string list \<Rightarrow> string list" where
  "filter_Boolean xs = filter (\<lambda>x. x \<noteq> []) xs"

text \<open>\<^verbatim>\<open>xs.sort(compare)\<close> is a stable sort. The comparator returns a number: negative
  when the first argument goes first. The model is insertion sort from the right,
  which keeps the original order of elements that compare equal.\<close>

fun insort_compare :: "('a \<Rightarrow> 'a \<Rightarrow> int) \<Rightarrow> 'a \<Rightarrow> 'a list \<Rightarrow> 'a list" where
  "insort_compare compare x [] = [x]"
| "insort_compare compare x (y # ys) =
     (if compare x y \<le> 0 then x # y # ys else y # insort_compare compare x ys)"

definition js_sort :: "('a \<Rightarrow> 'a \<Rightarrow> int) \<Rightarrow> 'a list \<Rightarrow> 'a list" where
  "js_sort compare xs = foldr (insort_compare compare) xs []"

text \<open>The comparison of strings by code units: the order of \<^verbatim>\<open><\<close> on strings, the
  lexicographic order of the lists of code units.\<close>

definition codeUnitCompare :: "string \<Rightarrow> string \<Rightarrow> int" where
  "codeUnitCompare a b = (if a < b then - 1 else if a = b then 0 else 1)"

text \<open>
  \<^verbatim>\<open>String.prototype.localeCompare\<close> belongs to the run time and compares by the
  collation of the locale; the builder below takes it as the parameter
  \<open>localeCompare\<close>. \<open>asciiLocaleCompare\<close> is that comparison, under the default
  collation, on strings of ASCII letters, digits, \<^verbatim>\<open>.\<close> and \<^verbatim>\<open>/\<close>: the strings are
  compared without regard to case first (\<^verbatim>\<open>.\<close> before \<^verbatim>\<open>/\<close> before the digits before
  the letters, the letters in the order of the alphabet), and two strings that
  differ in case only are decided at the first place where they differ, the lower
  case letter going first. So \<^verbatim>\<open>'a'.localeCompare('B')\<close> is \<open>-1\<close>, whereas \<^verbatim>\<open>'B' < 'a'\<close>.
\<close>

definition asciiToLowerCase :: "char \<Rightarrow> char" where
  "asciiToLowerCase c =
     (if 65 \<le> (of_char c :: int) \<and> (of_char c :: int) \<le> 90
      then char_of ((of_char c :: int) + 32) else c)"

definition asciiLocaleCompare :: "string \<Rightarrow> string \<Rightarrow> int" where
  "asciiLocaleCompare a b =
     (let primary = codeUnitCompare (map asciiToLowerCase a) (map asciiToLowerCase b)
      in if primary \<noteq> 0 then primary else codeUnitCompare b a)"

section \<open>JavaScript objects used as dictionaries\<close>

text \<open>
  A plain object \<^verbatim>\<open>{}\<close> used as \<^verbatim>\<open>Record<string, T>\<close> is an association list of its own
  properties in the order of their creation (\<^const>\<open>AList.update\<close> keeps the place of
  a key that is there and appends a new one, as an assignment \<^verbatim>\<open>obj[k] = v\<close> does).
  \<^verbatim>\<open>Object.values\<close> lists the properties whose key is an array index first, in
  ascending numeric order, then the others in the order of their creation.
\<close>

definition is_digit :: "char \<Rightarrow> bool" where
  "is_digit c = (48 \<le> (of_char c :: int) \<and> (of_char c :: int) \<le> 57)"

definition digits_value :: "string \<Rightarrow> int" where
  "digits_value s = foldl (\<lambda>n c. 10 * n + (of_char c - 48)) 0 s"

definition is_array_index :: "string \<Rightarrow> bool" where
  "is_array_index s =
     (s \<noteq> [] \<and> list_all is_digit s \<and> (s = ''0'' \<or> hd s \<noteq> CHR ''0'')
      \<and> digits_value s < 4294967295)"

definition Object_values :: "(string \<times> 'a) list \<Rightarrow> 'a list" where
  "Object_values obj =
     map snd (sort_key (\<lambda>kv. digits_value (fst kv)) (filter (\<lambda>kv. is_array_index (fst kv)) obj))
     @ map snd (filter (\<lambda>kv. \<not> is_array_index (fst kv)) obj)"

text \<open>
  A property read \<^verbatim>\<open>obj[k]\<close> on a plain object looks at the own properties first and
  then at \<^verbatim>\<open>Object.prototype\<close>, which has the properties named below: all of them
  functions, and \<^verbatim>\<open>__proto__\<close>, which reads as \<^verbatim>\<open>Object.prototype\<close> itself.
\<close>

definition Object_prototype_functions :: "string list" where
  "Object_prototype_functions =
     [''constructor'', ''hasOwnProperty'', ''isPrototypeOf'', ''propertyIsEnumerable'',
      ''toLocaleString'', ''toString'', ''valueOf'', ''__defineGetter__'',
      ''__defineSetter__'', ''__lookupGetter__'', ''__lookupSetter__'']"

datatype error = TypeError

section \<open>Values\<close>

text \<open>A JavaScript value as far as \<^verbatim>\<open>typeof\<close>, \<^verbatim>\<open>Array.isArray\<close> and the comparisons with
  \<^verbatim>\<open>null\<close> and \<^verbatim>\<open>undefined\<close> tell values apart. Numbers are not computed with: their
  type is a parameter.\<close>

datatype 'num js_value =
    Undefined
  | Null
  | String string
  | Number 'num
  | Boolean bool
  | Array "'num js_value list"
  | Object

section \<open>treeUtils.ts\<close>

text \<open>\<^verbatim>\<open>TreeOption\<close>; its field \<^verbatim>\<open>value\<close> is \<open>val\<close> here, \<^verbatim>\<open>value\<close> being a keyword.\<close>

record 'num TreeOption =
  label :: string
  val :: "'num js_value"

datatype TreeSelectDataNode =
  TreeSelectDataNode (sd_title: string) (sd_value: string) (sd_key: string)
    (sd_selectable: bool) (sd_children: "TreeSelectDataNode list")

datatype InternalNode =
  InternalNode (in_title: string) (in_value: string) (in_key: string)
    (in_children: "(string \<times> InternalNode) list")

definition createNode :: "string \<Rightarrow> string \<Rightarrow> InternalNode" where
  "createNode title v = InternalNode title v v []"

lemma size_Object_values:
  "n \<in> set (Object_values obj) \<Longrightarrow> size n < Suc (size_list (size_prod (\<lambda>_. 0) size) obj)"
proof -
  assume "n \<in> set (Object_values obj)"
  then obtain k where "(k, n) \<in> set obj"
    by (auto simp: Object_values_def)
  then show ?thesis
    by (induction obj) auto
qed

lemma set_insort_compare: "set (insort_compare c x xs) = insert x (set xs)"
  by (induction xs) auto

lemma set_js_sort: "set (js_sort c xs) = set xs"
  by (induction xs) (auto simp: js_sort_def set_insort_compare)

function toSortedTree ::
  "(string \<Rightarrow> string \<Rightarrow> int) \<Rightarrow> (string \<times> InternalNode) list \<Rightarrow> TreeSelectDataNode list"
where
  "toSortedTree localeCompare nodeMap =
     map (\<lambda>node. TreeSelectDataNode (in_title node) (in_value node) (in_key node) True
                  (toSortedTree localeCompare (in_children node)))
         (js_sort (\<lambda>a b. localeCompare (in_value a) (in_value b)) (Object_values nodeMap))"
  by pat_completeness auto
termination
proof (relation "measure (\<lambda>(c, nodeMap). size_list (size_prod (\<lambda>_. 0) size) nodeMap)")
  show "wf (measure (\<lambda>(c, nodeMap). size_list (size_prod (\<lambda>_. 0) size) nodeMap))"
    by simp
next
  fix localeCompare :: "string \<Rightarrow> string \<Rightarrow> int"
    and nodeMap :: "(string \<times> InternalNode) list" and node
  assume "node \<in> set (js_sort (\<lambda>a b. localeCompare (in_value a) (in_value b))
                          (Object_values nodeMap))"
  then have "node \<in> set (Object_values nodeMap)"
    by (simp add: set_js_sort)
  then have "size node < Suc (size_list (size_prod (\<lambda>_. 0) size) nodeMap)"
    by (rule size_Object_values)
  moreover have "size_list (size_prod (\<lambda>_. 0) size) (in_children node) < size node"
    by (cases node) simp
  ultimately show "((localeCompare, in_children node), (localeCompare, nodeMap))
      \<in> measure (\<lambda>(c, nodeMap). size_list (size_prod (\<lambda>_. 0) size) nodeMap)"
    by simp
qed

declare toSortedTree.simps [simp del]

text \<open>
  The state of the walk of \<^verbatim>\<open>buildTreeSelectData\<close>: what \<^verbatim>\<open>cursor[part]\<close> reads. The
  own properties of a cursor are nodes. \<^verbatim>\<open>Object.prototype\<close> gets a \<^verbatim>\<open>title\<close> property
  when the walk assigns \<^verbatim>\<open>cursor['__proto__'].title\<close>; \<open>protoTitle\<close> is that property
  (\<open>None\<close> while there is none).
\<close>

datatype property =
    OwnNode InternalNode
  | PrototypeObject
  | BuiltinFunction
  | PrimitiveString string
  | NoProperty

definition getProperty ::
  "string option \<Rightarrow> (string \<times> InternalNode) list \<Rightarrow> string \<Rightarrow> property" where
  "getProperty protoTitle cursor part =
     (case map_of cursor part of
        Some node \<Rightarrow> OwnNode node
      | None \<Rightarrow>
          if part = ''__proto__'' then PrototypeObject
          else if part \<in> set Object_prototype_functions then BuiltinFunction
          else if part = ''title''
            then (case protoTitle of Some s \<Rightarrow> PrimitiveString s | None \<Rightarrow> NoProperty)
          else NoProperty)"

fun truthy :: "property \<Rightarrow> bool" where
  "truthy (PrimitiveString s) = (s \<noteq> [])"
| "truthy NoProperty = False"
| "truthy _ = True"

text \<open>
  The body of \<^verbatim>\<open>parts.forEach\<close> (lines 82 to 91), as a recursion over the parts that
  are left; \<open>seen\<close> are the parts before the current one, so that
  \<^verbatim>\<open>parts.slice(0, index + 1)\<close> is \<open>seen @ [part]\<close> and the last index is the one with
  nothing left. The result is the cursor with the walk's updates, or the
  \<^verbatim>\<open>TypeError\<close> of the run time:
  \<^item> a part that reads as a function of \<^verbatim>\<open>Object.prototype\<close>, or as the prototype
    itself, is truthy, so no node is created; its \<^verbatim>\<open>children\<close> are \<^verbatim>\<open>undefined\<close>, and
    the next part reads a property of \<^verbatim>\<open>undefined\<close>;
  \<^item> a part that reads as a non-empty primitive string cannot be assigned a
    \<^verbatim>\<open>title\<close> (module code is strict) and has no \<^verbatim>\<open>children\<close> either.
\<close>

fun walkParts ::
  "string \<Rightarrow> string \<Rightarrow> string list \<Rightarrow> string list \<Rightarrow> string option
   \<Rightarrow> (string \<times> InternalNode) list
   \<Rightarrow> error + ((string \<times> InternalNode) list \<times> string option)"
where
  "walkParts delimiter lbl seen [] protoTitle cursor = Inr (cursor, protoTitle)"
| "walkParts delimiter lbl seen (part # rest) protoTitle cursor =
     (let pathValue = js_join (seen @ [part]) delimiter;
          cursor1 = (if \<not> truthy (getProperty protoTitle cursor part)
                     then AList.update part (createNode part pathValue) cursor
                     else cursor)
      in case getProperty protoTitle cursor1 part of
           OwnNode node \<Rightarrow>
             (let node1 = (if rest = []
                           then InternalNode lbl (in_value node) (in_key node) (in_children node)
                           else node)
              in case walkParts delimiter lbl (seen @ [part]) rest protoTitle (in_children node1) of
                   Inl e \<Rightarrow> Inl e
                 | Inr (children, protoTitle1) \<Rightarrow>
                     Inr (AList.update part
                            (InternalNode (in_title node1) (in_value node1) (in_key node1) children)
                            cursor1,
                          protoTitle1))
         | BuiltinFunction \<Rightarrow> if rest = [] then Inr (cursor1, protoTitle) else Inl TypeError
         | PrototypeObject \<Rightarrow> if rest = [] then Inr (cursor1, Some lbl) else Inl TypeError
         | PrimitiveString s \<Rightarrow> Inl TypeError
         | NoProperty \<Rightarrow> Inl TypeError)"

text \<open>The body of \<^verbatim>\<open>options.forEach\<close> (lines 66 to 92) for one option.\<close>

definition addOption ::
  "string \<Rightarrow> (string \<times> InternalNode) list \<times> string option \<Rightarrow> 'num TreeOption
   \<Rightarrow> error + ((string \<times> InternalNode) list \<times> string option)"
where
  "addOption delimiter state option =
     (case val option of
        String s \<Rightarrow>
          (let trimmed = js_trim s in
           if trimmed = [] then Inr state
           else let parts = filter_Boolean (js_split trimmed delimiter) in
             if parts = [] then Inr state
             else walkParts delimiter (label option) [] parts (snd state) (fst state))
      | _ \<Rightarrow> Inr state)"

text \<open>\<^verbatim>\<open>options.forEach\<close>: an exception ends the loop and the call.\<close>

fun forEachOption ::
  "string \<Rightarrow> 'num TreeOption list \<Rightarrow> (string \<times> InternalNode) list \<times> string option
   \<Rightarrow> error + ((string \<times> InternalNode) list \<times> string option)"
where
  "forEachOption delimiter [] state = Inr state"
| "forEachOption delimiter (option # options) state =
     (case addOption delimiter state option of
        Inl e \<Rightarrow> Inl e
      | Inr state1 \<Rightarrow> forEachOption delimiter options state1)"

text \<open>
  \<^verbatim>\<open>buildTreeSelectData(options, delimiter)\<close>. The comparison \<^verbatim>\<open>localeCompare\<close> of the
  run time and the \<^verbatim>\<open>title\<close> property of \<^verbatim>\<open>Object.prototype\<close> at the time of the call
  are parameters; the result is the tree, with that property after the call, or
  the exception. The default of the source for \<open>delimiter\<close> is \<open>''/''\<close>.
\<close>

definition buildTreeSelectData ::
  "(string \<Rightarrow> string \<Rightarrow> int) \<Rightarrow> string option \<Rightarrow> 'num TreeOption list \<Rightarrow> string
   \<Rightarrow> error + (TreeSelectDataNode list \<times> string option)"
where
  "buildTreeSelectData localeCompare protoTitle options delimiter =
     (case forEachOption delimiter options ([], protoTitle) of
        Inl e \<Rightarrow> Inl e
      | Inr (root, protoTitle1) \<Rightarrow> Inr (toSortedTree localeCompare root, protoTitle1))"

fun is_string_or_number :: "'num js_value \<Rightarrow> bool" where
  "is_string_or_number (String s) = True"
| "is_string_or_number (Number n) = True"
| "is_string_or_number _ = False"

fun normalizeTreeSelectValue :: "'num js_value \<Rightarrow> 'num js_value" where
  "normalizeTreeSelectValue Undefined = Undefined"
| "normalizeTreeSelectValue Null = Null"
| "normalizeTreeSelectValue (Array vs) = Array (filter is_string_or_number vs)"
| "normalizeTreeSelectValue (String s) = Array [String s]"
| "normalizeTreeSelectValue (Number n) = Array [Number n]"
| "normalizeTreeSelectValue _ = Null"

section \<open>TreeSelectFilterPlugin.tsx\<close>

datatype TreeNode =
  TreeNode (tn_key: string) (tn_value: string) (tn_title: string)
    (tn_children: "TreeNode list")

text \<open>
  \<^verbatim>\<open>MutableNode\<close>: a \<^verbatim>\<open>TreeNode\<close> with a \<^verbatim>\<open>childrenMap\<close>. Its \<^verbatim>\<open>children\<close> array stays
  empty until \<^verbatim>\<open>convertNode\<close> builds it from the map, so the model leaves it out. A
  \<^verbatim>\<open>Map\<close> is an association list in the order of insertion.
\<close>

datatype MutableNode =
  MutableNode (mn_key: string) (mn_value: string) (mn_title: string)
    (mn_childrenMap: "(string \<times> MutableNode) list")

definition ensureChild ::
  "(string \<times> MutableNode) list \<Rightarrow> string \<Rightarrow> string
   \<Rightarrow> MutableNode \<times> (string \<times> MutableNode) list" where
  "ensureChild container nodeValue title =
     (case map_of container nodeValue of
        Some node \<Rightarrow> (node, container)
      | None \<Rightarrow>
          (let node = MutableNode nodeValue nodeValue title []
           in (node, AList.update nodeValue node container)))"

text \<open>\<^verbatim>\<open>assembled\<close> is a string or \<^verbatim>\<open>undefined\<close> (\<open>None\<close>); in a template literal
  \<^verbatim>\<open>undefined\<close> reads as the text \<^verbatim>\<open>undefined\<close>.\<close>

definition template :: "string option \<Rightarrow> string" where
  "template assembled = (case assembled of Some s \<Rightarrow> s | None \<Rightarrow> ''undefined'')"

text \<open>The body of \<^verbatim>\<open>segments.forEach\<close> (lines 83 to 93).\<close>

fun walkSegments ::
  "string \<Rightarrow> string option \<Rightarrow> string list \<Rightarrow> (string \<times> MutableNode) list
   \<Rightarrow> (string \<times> MutableNode) list"
where
  "walkSegments delimiter assembled [] currentMap = currentMap"
| "walkSegments delimiter assembled (segment # rest) currentMap =
     (let nextValue =
            (if delimiter = ''/'' then template assembled @ ''/'' @ segment
             else if assembled \<noteq> None \<and> assembled \<noteq> Some []
               then template assembled @ ''.'' @ segment
             else segment);
          (node, container) = ensureChild currentMap nextValue segment
      in AList.update nextValue
           (MutableNode (mn_key node) (mn_value node) (mn_title node)
              (walkSegments delimiter (Some nextValue) rest (mn_childrenMap node)))
           container)"

text \<open>The body of \<^verbatim>\<open>values.forEach\<close> (lines 68 to 94) for one path.\<close>

definition addPath :: "(string \<times> MutableNode) list \<Rightarrow> string \<Rightarrow> (string \<times> MutableNode) list"
where
  "addPath roots path =
     (let delimiter = (if js_includes path ''/'' then ''/'' else ''.'');
          segments = (if delimiter = ''/'' then filter_Boolean (js_split path ''/'')
                      else filter_Boolean (js_split path ''.''))
      in if segments = [] then snd (ensureChild roots path path)
         else walkSegments delimiter (if delimiter = ''/'' then Some [] else None)
                segments roots)"

fun convertNode :: "MutableNode \<Rightarrow> TreeNode" where
  "convertNode (MutableNode k v t childrenMap) =
     TreeNode k v t (map (\<lambda>kv. convertNode (snd kv)) childrenMap)"

definition buildTreeData :: "string list \<Rightarrow> TreeNode list" where
  "buildTreeData values = map (\<lambda>kv. convertNode (snd kv)) (foldl addPath [] values)"

section \<open>Vocabulary of the properties\<close>

subsection \<open>Parts and paths in buildTreeSelectData\<close>

text \<open>
  A part \<open>inherits\<close> when it names a property that every plain object has from
  \<^verbatim>\<open>Object.prototype\<close>; it is plain when \<^verbatim>\<open>cursor[part]\<close> reads an own property or
  \<^verbatim>\<open>undefined\<close>, whatever the cursor. \<open>partsOf\<close> are the parts of an option (lines 71
  to 76; an option that the loop skips has none) and \<open>labelsFor\<close> the labels of the
  options with given parts, in the order of the input. \<open>lookupPath\<close> is the node at
  a path of own keys, and \<open>pathValues d seen p\<close> the chain of the values that the
  walk assembles for the parts \<open>p\<close> below the parts \<open>seen\<close>.
\<close>

definition inherits :: "string \<Rightarrow> bool" where
  "inherits part = (part = ''__proto__'' \<or> part \<in> set Object_prototype_functions)"

definition plain_part :: "string option \<Rightarrow> string \<Rightarrow> bool" where
  "plain_part protoTitle part =
     (\<not> inherits part \<and> (part = ''title'' \<longrightarrow> protoTitle = None \<or> protoTitle = Some []))"

definition partsOf :: "string \<Rightarrow> 'num TreeOption \<Rightarrow> string list" where
  "partsOf d option =
     (case val option of String s \<Rightarrow> filter_Boolean (js_split (js_trim s) d) | _ \<Rightarrow> [])"

definition labelsFor :: "string \<Rightarrow> 'num TreeOption list \<Rightarrow> string list \<Rightarrow> string list" where
  "labelsFor d options p = map label (filter (\<lambda>option. partsOf d option = p) options)"

fun lookupPath :: "(string \<times> InternalNode) list \<Rightarrow> string list \<Rightarrow> InternalNode option" where
  "lookupPath cursor [] = None"
| "lookupPath cursor (k # ks) =
     (case map_of cursor k of
        None \<Rightarrow> None
      | Some n \<Rightarrow> if ks = [] then Some n else lookupPath (in_children n) ks)"

fun pathValues :: "string \<Rightarrow> string list \<Rightarrow> string list \<Rightarrow> string list" where
  "pathValues d seen [] = []"
| "pathValues d seen (part # rest) = js_join (seen @ [part]) d # pathValues d (seen @ [part]) rest"

text \<open>
  The invariant of the walk: at every level the own keys are distinct and none of
  them names a property of \<^verbatim>\<open>Object.prototype\<close>; the node under the key \<open>k\<close> below the
  parts \<open>seen\<close> has the value and the key \<^verbatim>\<open>[...seen, k].join(delimiter)\<close>.
\<close>

fun wf_node :: "string \<Rightarrow> string list \<Rightarrow> string \<Rightarrow> InternalNode \<Rightarrow> bool" where
  "wf_node d seen k (InternalNode t v key children) =
     (\<not> inherits k \<and> v = js_join (seen @ [k]) d \<and> key = v \<and> distinct (map fst children)
      \<and> (\<forall>kn \<in> set children. wf_node d (seen @ [k]) (fst kn) (snd kn)))"

definition wf_level :: "string \<Rightarrow> string list \<Rightarrow> (string \<times> InternalNode) list \<Rightarrow> bool" where
  "wf_level d seen cursor =
     (distinct (map fst cursor) \<and> (\<forall>kn \<in> set cursor. wf_node d seen (fst kn) (snd kn)))"

subsection \<open>The tree that buildTreeSelectData returns\<close>

text \<open>
  \<open>dataNode\<close> is the function that \<^verbatim>\<open>toSortedTree\<close> maps over the sorted nodes. A
  comparator is consistent when the order it describes is total and transitive:
  what \<^verbatim>\<open>sort\<close> asks of its argument. A tree is sorted, or has distinct siblings,
  when the roots and the children of every node are. \<open>sd_find\<close> follows a chain of
  values from the roots: the root with the first value, its child with the
  second, and so on.
\<close>

definition dataNode :: "(string \<Rightarrow> string \<Rightarrow> int) \<Rightarrow> InternalNode \<Rightarrow> TreeSelectDataNode" where
  "dataNode c node =
     TreeSelectDataNode (in_title node) (in_value node) (in_key node) True
       (toSortedTree c (in_children node))"

definition consistent_comparator :: "('a \<Rightarrow> 'a \<Rightarrow> int) \<Rightarrow> bool" where
  "consistent_comparator c =
     ((\<forall>a b. c a b \<le> 0 \<or> c b a \<le> 0) \<and> (\<forall>a b z. c a b \<le> 0 \<and> c b z \<le> 0 \<longrightarrow> c a z \<le> 0))"

fun sd_sorted_node :: "(string \<Rightarrow> string \<Rightarrow> int) \<Rightarrow> TreeSelectDataNode \<Rightarrow> bool" where
  "sd_sorted_node c (TreeSelectDataNode t v k s children) =
     (sorted_wrt (\<lambda>a b. c (sd_value a) (sd_value b) \<le> 0) children
      \<and> (\<forall>n \<in> set children. sd_sorted_node c n))"

definition sd_sorted :: "(string \<Rightarrow> string \<Rightarrow> int) \<Rightarrow> TreeSelectDataNode list \<Rightarrow> bool" where
  "sd_sorted c nodes =
     (sorted_wrt (\<lambda>a b. c (sd_value a) (sd_value b) \<le> 0) nodes
      \<and> (\<forall>n \<in> set nodes. sd_sorted_node c n))"

fun sd_distinct_node :: "TreeSelectDataNode \<Rightarrow> bool" where
  "sd_distinct_node (TreeSelectDataNode t v k s children) =
     (distinct (map sd_value children) \<and> (\<forall>n \<in> set children. sd_distinct_node n))"

definition sd_distinct :: "TreeSelectDataNode list \<Rightarrow> bool" where
  "sd_distinct nodes = (distinct (map sd_value nodes) \<and> (\<forall>n \<in> set nodes. sd_distinct_node n))"

fun sd_find :: "TreeSelectDataNode list \<Rightarrow> string list \<Rightarrow> TreeSelectDataNode option" where
  "sd_find nodes [] = None"
| "sd_find nodes (v # vs) =
     (case find (\<lambda>n. sd_value n = v) nodes of
        None \<Rightarrow> None
      | Some n \<Rightarrow> if vs = [] then Some n else sd_find (sd_children n) vs)"

text \<open>
  \<open>in_count\<close> and \<open>sd_count\<close> count the nodes of a tree, before and after the
  conversion, and \<open>pathSet\<close> is the set of the paths at which a level has a node.
\<close>

fun in_count :: "InternalNode \<Rightarrow> nat" where
  "in_count (InternalNode t v k children) = Suc (sum_list (map (\<lambda>kn. in_count (snd kn)) children))"

fun sd_count :: "TreeSelectDataNode \<Rightarrow> nat" where
  "sd_count (TreeSelectDataNode t v k s children) = Suc (sum_list (map sd_count children))"

definition pathSet :: "(string \<times> InternalNode) list \<Rightarrow> string list set" where
  "pathSet cursor = {p. lookupPath cursor p \<noteq> None}"

subsection \<open>Segments and chains in buildTreeData\<close>

text \<open>
  \<open>segmentsOf\<close> are the segments that \<^verbatim>\<open>buildTreeData\<close> computes for a path (lines 69
  to 73), \<open>assemble\<close> is the value \<^verbatim>\<open>nextValue\<close> of lines 84 to 89, and
  \<open>assembledValues\<close> the chain of these values along the segments. \<open>entryChain\<close> is
  the chain of one path: its own text when it has no segments. \<open>lookupChain\<close>
  follows a chain of keys through the maps.
\<close>

definition segmentsOf :: "string \<Rightarrow> string list" where
  "segmentsOf path =
     filter_Boolean (js_split path (if CHR ''/'' \<in> set path then ''/'' else ''.''))"

definition assemble :: "string \<Rightarrow> string option \<Rightarrow> string \<Rightarrow> string" where
  "assemble d assembled segment =
     (if d = ''/'' then template assembled @ ''/'' @ segment
      else if assembled \<noteq> None \<and> assembled \<noteq> Some [] then template assembled @ ''.'' @ segment
      else segment)"

fun assembledValues :: "string \<Rightarrow> string option \<Rightarrow> string list \<Rightarrow> string list" where
  "assembledValues d assembled [] = []"
| "assembledValues d assembled (segment # rest) =
     assemble d assembled segment
       # assembledValues d (Some (assemble d assembled segment)) rest"

definition entryChain :: "string \<Rightarrow> string list" where
  "entryChain path =
     (if segmentsOf path = [] then [path]
      else assembledValues (if CHR ''/'' \<in> set path then ''/'' else ''.'')
             (if CHR ''/'' \<in> set path then Some [] else None) (segmentsOf path))"

fun lookupChain :: "(string \<times> MutableNode) list \<Rightarrow> string list \<Rightarrow> MutableNode option" where
  "lookupChain m [] = None"
| "lookupChain m (k # ks) =
     (case map_of m k of
        None \<Rightarrow> None
      | Some n \<Rightarrow> if ks = [] then Some n else lookupChain (mn_childrenMap n) ks)"

text \<open>
  The invariant of the maps: the keys of a map are distinct; the node under the
  key \<open>k\<close> has the key and the value \<open>k\<close>, and its title is determined by \<open>k\<close> and
  the key of its parent (\<open>titleFor\<close>); a root whose key has no segments has no
  children. \<open>walk_level\<close> relates \<^verbatim>\<open>assembled\<close> to the key of the parent during a walk,
  and \<open>segment_ok\<close> is what splitting guarantees of a segment.
\<close>

definition titleFor :: "string option \<Rightarrow> string \<Rightarrow> string" where
  "titleFor parent k =
     (case parent of
        Some a \<Rightarrow> drop (Suc (length a)) k
      | None \<Rightarrow> if segmentsOf k = [] then k else if CHR ''/'' \<in> set k then tl k else k)"

fun chainParent :: "string option \<Rightarrow> string list \<Rightarrow> string option" where
  "chainParent parent [] = parent"
| "chainParent parent (k # ks) = (if ks = [] then parent else chainParent (Some k) ks)"

fun wf_mnode :: "string option \<Rightarrow> string \<Rightarrow> MutableNode \<Rightarrow> bool" where
  "wf_mnode parent k (MutableNode key v t children) =
     (key = k \<and> v = k \<and> t = titleFor parent k
      \<and> (parent = None \<and> segmentsOf k = [] \<longrightarrow> children = [])
      \<and> distinct (map fst children)
      \<and> (\<forall>kn \<in> set children. wf_mnode (Some k) (fst kn) (snd kn)))"

definition wf_mlevel :: "string option \<Rightarrow> (string \<times> MutableNode) list \<Rightarrow> bool" where
  "wf_mlevel parent m =
     (distinct (map fst m) \<and> (\<forall>kn \<in> set m. wf_mnode parent (fst kn) (snd kn)))"

definition walk_level :: "string \<Rightarrow> string option \<Rightarrow> string option \<Rightarrow> bool" where
  "walk_level d assembled parent =
     ((d = ''/'' \<or> d = ''.'')
      \<and> (case parent of
           None \<Rightarrow> assembled = (if d = ''/'' then Some [] else None)
         | Some a \<Rightarrow> assembled = Some a \<and> a \<noteq> []))"

definition segment_ok :: "string \<Rightarrow> string \<Rightarrow> bool" where
  "segment_ok d segment =
     (segment \<noteq> [] \<and> CHR ''/'' \<notin> set segment \<and> (d = ''.'' \<longrightarrow> CHR ''.'' \<notin> set segment))"

subsection \<open>The tree that buildTreeData returns\<close>

text \<open>\<open>tn_find\<close> follows a chain of values from the roots, as \<open>sd_find\<close> does.\<close>

fun tn_find :: "TreeNode list \<Rightarrow> string list \<Rightarrow> TreeNode option" where
  "tn_find nodes [] = None"
| "tn_find nodes (v # vs) =
     (case find (\<lambda>n. tn_value n = v) nodes of
        None \<Rightarrow> None
      | Some n \<Rightarrow> if vs = [] then Some n else tn_find (tn_children n) vs)"

fun tn_distinct_node :: "TreeNode \<Rightarrow> bool" where
  "tn_distinct_node (TreeNode k v t children) =
     (distinct (map tn_value children) \<and> (\<forall>n \<in> set children. tn_distinct_node n))"

definition tn_distinct :: "TreeNode list \<Rightarrow> bool" where
  "tn_distinct nodes = (distinct (map tn_value nodes) \<and> (\<forall>n \<in> set nodes. tn_distinct_node n))"

text \<open>
  \<open>mn_count\<close> and \<open>tn_count\<close> count the nodes of a tree, and \<open>chainSet\<close> is the set
  of the chains at which a level has a node.
\<close>

fun mn_count :: "MutableNode \<Rightarrow> nat" where
  "mn_count (MutableNode k v t children) = Suc (sum_list (map (\<lambda>kn. mn_count (snd kn)) children))"

fun tn_count :: "TreeNode \<Rightarrow> nat" where
  "tn_count (TreeNode k v t children) = Suc (sum_list (map tn_count children))"

definition chainSet :: "(string \<times> MutableNode) list \<Rightarrow> string list set" where
  "chainSet m = {p. lookupChain m p \<noteq> None}"

section \<open>Library functions\<close>

lemma js_includes_char: "js_includes s [c] = (c \<in> set s)"
  by (induction s) auto

lemma js_join_snoc: "js_join (xs @ [k]) d = (if xs = [] then k else js_join xs d @ d @ k)"
  by (induction xs d rule: js_join.induct) auto

lemma js_join_snoc_inj: "js_join (xs @ [k]) d = js_join (xs @ [k']) d \<Longrightarrow> k = k'"
  by (simp add: js_join_snoc split: if_splits)

lemma js_join_Cons: "ys \<noteq> [] \<Longrightarrow> js_join (x # ys) d = x @ d @ js_join ys d"
  by (cases ys) simp_all

lemma upt_Suc_shift: "[0..<Suc n] = 0 # map Suc [0..<n]"
  by (simp add: upt_conv_Cons map_Suc_upt del: upt_Suc)

lemma take_upt_map: "i < n \<Longrightarrow> take (Suc i) (map f [0..<n]) = map f [0..<Suc i]"
  by (simp add: take_map del: upt_Suc)

lemma last_take_Suc: "i < length xs \<Longrightarrow> last (take (Suc i) xs) = xs ! i"
  by (simp add: take_Suc_conv_app_nth)

lemma find_unique:
  assumes "x \<in> set xs" "P x" "\<And>y. y \<in> set xs \<Longrightarrow> P y \<Longrightarrow> y = x"
  shows "find P xs = Some x"
proof -
  from assms(1,2) obtain y where y: "find P xs = Some y"
    by (cases "find P xs") (auto simp: find_None_iff)
  then have "y \<in> set xs" "P y"
    by (auto simp: find_Some_iff)
  with assms(3) y show ?thesis by simp
qed

lemma find_map_option: "find P (map f xs) = map_option f (find (\<lambda>x. P (f x)) xs)"
  by (induction xs) auto

lemma mset_insort_compare: "mset (insort_compare c x xs) = add_mset x (mset xs)"
  by (induction xs) auto

lemma mset_js_sort: "mset (js_sort c xs) = mset xs"
  by (induction xs) (auto simp: js_sort_def mset_insort_compare)

lemma mset_Object_values: "mset (Object_values obj) = mset (map snd obj)"
  by (simp add: Object_values_def flip: image_mset_union)

lemma set_Object_values: "set (Object_values obj) = snd ` set obj"
  using mset_eq_setD[OF mset_Object_values, of obj] by simp

lemma set_level: "set (js_sort c (Object_values obj)) = snd ` set obj"
  by (simp add: set_js_sort set_Object_values)

lemma sorted_insort_compare:
  assumes "consistent_comparator c" "sorted_wrt (\<lambda>a b. c a b \<le> 0) xs"
  shows "sorted_wrt (\<lambda>a b. c a b \<le> 0) (insort_compare c x xs)"
  using assms(2)
proof (induction xs)
  case Nil
  then show ?case by simp
next
  case (Cons y ys)
  have total: "\<And>a b. c a b \<le> 0 \<or> c b a \<le> 0"
    and trans: "\<And>a b z. c a b \<le> 0 \<Longrightarrow> c b z \<le> 0 \<Longrightarrow> c a z \<le> 0"
    using assms(1) unfolding consistent_comparator_def by blast+
  show ?case
  proof (cases "c x y \<le> 0")
    case True
    with Cons.prems trans show ?thesis by auto
  next
    case False
    with total[of x y] have "c y x \<le> 0" by simp
    with False Cons show ?thesis by (auto simp: set_insort_compare)
  qed
qed

lemma sorted_js_sort:
  "consistent_comparator c \<Longrightarrow> sorted_wrt (\<lambda>a b. c a b \<le> 0) (js_sort c xs)"
  by (induction xs) (auto simp: js_sort_def sorted_insort_compare)

lemma consistent_comparator_on:
  "consistent_comparator c \<Longrightarrow> consistent_comparator (\<lambda>a b. c (f a) (f b))"
  unfolding consistent_comparator_def by blast

lemma consistent_codeUnitCompare: "consistent_comparator codeUnitCompare"
  unfolding consistent_comparator_def codeUnitCompare_def
  by (auto split: if_splits)

lemma asciiLocaleCompare_le:
  "asciiLocaleCompare a b \<le> 0 \<longleftrightarrow>
     map asciiToLowerCase a < map asciiToLowerCase b
     \<or> (map asciiToLowerCase a = map asciiToLowerCase b \<and> b \<le> a)"
  by (auto simp: asciiLocaleCompare_def Let_def codeUnitCompare_def)

lemma consistent_asciiLocaleCompare: "consistent_comparator asciiLocaleCompare"
proof -
  have total: "\<And>(x::string) y (u::string) v. (x < y \<or> x = y \<and> v \<le> u) \<or> (y < x \<or> y = x \<and> u \<le> v)"
    by (metis linorder_le_cases linorder_less_linear)
  have trans: "\<And>(x::string) y w (u::string) v t.
      (x < y \<or> x = y \<and> v \<le> u) \<and> (y < w \<or> y = w \<and> t \<le> v) \<Longrightarrow> x < w \<or> x = w \<and> t \<le> u"
    by (metis less_trans order_trans)
  show ?thesis
    unfolding consistent_comparator_def asciiLocaleCompare_le
    by (intro conjI allI impI) (rule total, rule trans)
qed

section \<open>The walk of buildTreeSelectData\<close>

subsection \<open>The invariant\<close>

lemma wf_node_children: "wf_node d seen k n \<Longrightarrow> wf_level d (seen @ [k]) (in_children n)"
  by (cases n) (simp add: wf_level_def)

lemma wf_node_iff:
  "wf_node d seen k n \<longleftrightarrow>
     \<not> inherits k \<and> in_value n = js_join (seen @ [k]) d \<and> in_key n = in_value n
     \<and> wf_level d (seen @ [k]) (in_children n)"
  by (cases n) (auto simp: wf_level_def)

lemma wf_level_map_of:
  "wf_level d seen cursor \<Longrightarrow> map_of cursor k = Some n \<Longrightarrow> wf_node d seen k n"
  by (auto simp: wf_level_def dest: map_of_SomeD)

lemma wf_level_update:
  assumes "wf_level d seen cursor" and "wf_node d seen k n"
  shows "wf_level d seen (AList.update k n cursor)"
proof -
  have "set (AList.update k n cursor) \<subseteq> insert (k, n) (set cursor)"
    by (induction cursor) auto
  with assms show ?thesis
    by (auto simp: wf_level_def distinct_update)
qed

lemma wf_level_Nil: "wf_level d seen []"
  by (simp add: wf_level_def)

subsection \<open>One step of the walk\<close>

text \<open>What a step that does not raise did: it went on below an own node, found or
  created, or it ended at an inherited property and left the cursor as it was.\<close>

lemma getProperty_own: "map_of cursor part = Some n \<Longrightarrow> getProperty pt cursor part = OwnNode n"
  by (simp add: getProperty_def)

lemma walkParts_Cons:
  assumes "walkParts d lbl seen (part # rest) pt cursor = Inr (cursor', pt')"
  obtains (own) node children where
      "map_of cursor part = Some node \<or>
       (map_of cursor part = None \<and> \<not> inherits part
        \<and> node = createNode part (js_join (seen @ [part]) d))"
      "walkParts d lbl (seen @ [part]) rest pt (in_children node) = Inr (children, pt')"
      "cursor' = AList.update part
         (InternalNode (if rest = [] then lbl else in_title node) (in_value node) (in_key node)
            children) cursor"
  | (inherited) "map_of cursor part = None" "inherits part" "rest = []" "cursor' = cursor"
proof (cases "map_of cursor part")
  case (Some node)
  then have g: "getProperty pt cursor part = OwnNode node"
    by (rule getProperty_own)
  from assms obtain children where
    "walkParts d lbl (seen @ [part]) rest pt (in_children node) = Inr (children, pt')"
    "cursor' = AList.update part
         (InternalNode (if rest = [] then lbl else in_title node) (in_value node) (in_key node)
            children) cursor"
    by (auto simp: g Let_def split: sum.splits if_splits)
  with Some show ?thesis by (intro own[of node children]) auto
next
  case None
  show ?thesis
  proof (cases "truthy (getProperty pt cursor part)")
    case True
    with None assms have "inherits part \<and> rest = [] \<and> cursor' = cursor"
      by (auto simp: getProperty_def inherits_def Let_def split: if_splits option.splits)
    with None show ?thesis by (intro inherited) auto
  next
    case False
    let ?node = "createNode part (js_join (seen @ [part]) d)"
    from False None have ni: "\<not> inherits part"
      by (auto simp: getProperty_def inherits_def split: if_splits option.splits)
    have g: "getProperty pt (AList.update part ?node cursor) part = OwnNode ?node"
      by (simp add: getProperty_def update_conv')
    from assms False obtain children where
      "walkParts d lbl (seen @ [part]) rest pt (in_children ?node) = Inr (children, pt')"
      "cursor' = AList.update part
         (InternalNode (if rest = [] then lbl else in_title ?node) (in_value ?node) (in_key ?node)
            children) cursor"
      by (auto simp: g Let_def split: sum.splits if_splits)
    with None ni show ?thesis by (intro own[of ?node children]) auto
  qed
qed

lemma walkParts_wf:
  "walkParts d lbl seen parts pt cursor = Inr (cursor', pt') \<Longrightarrow> wf_level d seen cursor
   \<Longrightarrow> wf_level d seen cursor'"
proof (induction parts arbitrary: seen cursor cursor')
  case Nil
  then show ?case by simp
next
  case (Cons part rest)
  from Cons.prems(1) show ?case
  proof (cases rule: walkParts_Cons)
    case (own node children)
    have ni: "\<not> inherits part" and wn: "wf_node d seen part node"
      using own(1) Cons.prems(2)
      by (auto dest: wf_level_map_of simp: wf_node_iff createNode_def wf_level_Nil)
    have "wf_level d (seen @ [part]) children"
      using Cons.IH[OF own(2)] wn by (simp add: wf_node_children)
    then have "wf_node d seen part
       (InternalNode (if rest = [] then lbl else in_title node) (in_value node) (in_key node) children)"
      using wn by (simp add: wf_node_iff)
    then show ?thesis
      unfolding own(3) using Cons.prems(2) by (rule wf_level_update[rotated])
  next
    case inherited
    then show ?thesis using Cons.prems(2) by simp
  qed
qed

subsection \<open>The nodes before and after a walk\<close>

lemma lookupPath_update:
  "lookupPath (AList.update part n cursor) (k # ks) =
     (if k = part then (if ks = [] then Some n else lookupPath (in_children n) ks)
      else lookupPath cursor (k # ks))"
  by (simp add: update_conv')

lemma lookupPath_Nil_tree [simp]: "lookupPath [] p = None"
  by (cases p) simp_all

lemma lookupPath_wf:
  "wf_level d seen cursor \<Longrightarrow> lookupPath cursor p = Some n
   \<Longrightarrow> in_value n = js_join (seen @ p) d \<and> in_key n = js_join (seen @ p) d \<and> \<not> inherits (last p)"
proof (induction p arbitrary: seen cursor)
  case Nil
  then show ?case by simp
next
  case (Cons k ks)
  from Cons.prems(2) obtain m where m: "map_of cursor k = Some m"
    by (auto split: option.splits)
  with Cons.prems(1) have wm: "wf_node d seen k m"
    by (rule wf_level_map_of)
  show ?case
  proof (cases "ks = []")
    case True
    with m Cons.prems(2) wm show ?thesis by (simp add: wf_node_iff)
  next
    case False
    with m Cons.prems(2) have "lookupPath (in_children m) ks = Some n" by simp
    from Cons.IH[OF wf_node_children[OF wm] this] False show ?thesis by simp
  qed
qed

lemma walkParts_final_title:
  "walkParts d lbl seen parts pt cursor = Inr (cursor', pt') \<Longrightarrow> lookupPath cursor' parts = Some n
   \<Longrightarrow> in_title n = lbl"
proof (induction parts arbitrary: seen cursor cursor')
  case Nil
  then show ?case by simp
next
  case (Cons part rest)
  from Cons.prems(1) show ?case
  proof (cases rule: walkParts_Cons)
    case (own node children)
    show ?thesis
    proof (cases "rest = []")
      case True
      with Cons.prems(2) own(3) show ?thesis by (auto simp: update_conv')
    next
      case False
      with Cons.prems(2) own(3) have "lookupPath children rest = Some n"
        by (simp add: update_conv')
      from Cons.IH[OF own(2) this] show ?thesis .
    qed
  next
    case inherited
    with Cons.prems(2) show ?thesis by simp
  qed
qed

lemma walkParts_keeps:
  "walkParts d lbl seen parts pt cursor = Inr (cursor', pt') \<Longrightarrow> lookupPath cursor p = Some n
   \<Longrightarrow> \<exists>n'. lookupPath cursor' p = Some n' \<and> (p \<noteq> parts \<longrightarrow> in_title n' = in_title n)"
proof (induction parts arbitrary: seen cursor cursor' p)
  case Nil
  then show ?case by simp
next
  case (Cons part rest)
  from Cons.prems(2) obtain k ks where p: "p = k # ks"
    by (cases p) auto
  from Cons.prems(1) show ?case
  proof (cases rule: walkParts_Cons)
    case (own node children)
    show ?thesis
    proof (cases "k = part")
      case False
      with Cons.prems(2) own(3) p show ?thesis by (simp add: update_conv')
    next
      case True
      with Cons.prems(2) p own(1) have node: "map_of cursor part = Some node"
        by (auto split: option.splits)
      show ?thesis
      proof (cases "ks = []")
        case True
        with Cons.prems(2) p node \<open>k = part\<close> own(3) show ?thesis
          by (auto simp: update_conv')
      next
        case False
        with Cons.prems(2) p node \<open>k = part\<close> have "lookupPath (in_children node) ks = Some n"
          by simp
        from Cons.IH[OF own(2) this] False own(3) p \<open>k = part\<close> show ?thesis
          by (auto simp: update_conv')
      qed
    qed
  next
    case inherited
    with Cons.prems(2) show ?thesis by auto
  qed
qed

lemma walkParts_reuses:
  "walkParts d lbl seen parts pt cursor = Inr (cursor', pt') \<Longrightarrow> lookupPath cursor p = Some n
   \<Longrightarrow> \<exists>n'. lookupPath cursor' p = Some n' \<and> in_key n' = in_key n \<and> in_value n' = in_value n"
proof (induction parts arbitrary: seen cursor cursor' p)
  case Nil
  then show ?case by simp
next
  case (Cons part rest)
  from Cons.prems(2) obtain k ks where p: "p = k # ks"
    by (cases p) auto
  from Cons.prems(1) show ?case
  proof (cases rule: walkParts_Cons)
    case (own node children)
    show ?thesis
    proof (cases "k = part")
      case False
      with Cons.prems(2) own(3) p show ?thesis by (simp add: update_conv')
    next
      case True
      with Cons.prems(2) p own(1) have node: "map_of cursor part = Some node"
        by (auto split: option.splits)
      show ?thesis
      proof (cases "ks = []")
        case True
        with Cons.prems(2) p node \<open>k = part\<close> own(3) show ?thesis
          by (auto simp: update_conv')
      next
        case False
        with Cons.prems(2) p node \<open>k = part\<close> have "lookupPath (in_children node) ks = Some n"
          by simp
        from Cons.IH[OF own(2) this] False own(3) p \<open>k = part\<close> show ?thesis
          by (auto simp: update_conv')
      qed
    qed
  next
    case inherited
    with Cons.prems(2) show ?thesis by auto
  qed
qed

lemma walkParts_new:
  "walkParts d lbl seen parts pt cursor = Inr (cursor', pt') \<Longrightarrow> lookupPath cursor p = None
   \<Longrightarrow> lookupPath cursor' p = Some n'
   \<Longrightarrow> prefix p parts \<and> (p \<noteq> parts \<longrightarrow> in_title n' = last p)"
proof (induction parts arbitrary: seen cursor cursor' p)
  case Nil
  then show ?case by simp
next
  case (Cons part rest)
  from Cons.prems(3) obtain k ks where p: "p = k # ks"
    by (cases p) auto
  from Cons.prems(1) show ?case
  proof (cases rule: walkParts_Cons)
    case (own node children)
    have k: "k = part"
    proof (rule ccontr)
      assume "k \<noteq> part"
      with Cons.prems(2,3) own(3) p show False by (simp add: update_conv')
    qed
    show ?thesis
    proof (cases "ks = []")
      case True
      with Cons.prems(2) p k have "map_of cursor part = None"
        by (auto split: option.splits)
      with own(1) have "node = createNode part (js_join (seen @ [part]) d)" by auto
      with Cons.prems(3) own(3) p k True show ?thesis
        by (auto simp: update_conv' createNode_def)
    next
      case False
      have old: "lookupPath (in_children node) ks = None"
        using own(1) Cons.prems(2) p k False
        by (auto simp: createNode_def split: option.splits)
      have new: "lookupPath children ks = Some n'"
        using Cons.prems(3) own(3) p k False by (simp add: update_conv')
      from Cons.IH[OF own(2) old new] False p k show ?thesis by auto
    qed
  next
    case inherited
    with Cons.prems(2,3) show ?thesis by auto
  qed
qed

lemma walkParts_reaches:
  "walkParts d lbl seen parts pt cursor = Inr (cursor', pt') \<Longrightarrow> prefix p parts \<Longrightarrow> p \<noteq> []
   \<Longrightarrow> \<not> inherits (last p) \<Longrightarrow> lookupPath cursor' p \<noteq> None"
proof (induction parts arbitrary: seen cursor cursor' p)
  case Nil
  then show ?case by simp
next
  case (Cons part rest)
  from Cons.prems(2,3) obtain ks where p: "p = part # ks" and ks: "prefix ks rest"
    by (cases p) auto
  from Cons.prems(1) show ?case
  proof (cases rule: walkParts_Cons)
    case (own node children)
    show ?thesis
    proof (cases "ks = []")
      case True
      with own(3) p show ?thesis by (simp add: update_conv')
    next
      case False
      with Cons.prems(4) p have "\<not> inherits (last ks)" by simp
      from Cons.IH[OF own(2) ks False this] False own(3) p show ?thesis
        by (simp add: update_conv')
    qed
  next
    case inherited
    with ks p Cons.prems(4) show ?thesis by simp
  qed
qed

subsection \<open>The loop over the options\<close>

lemma partsOf_trim_empty:
  "val option = String s \<Longrightarrow> js_trim s = [] \<Longrightarrow> partsOf d option = []"
  by (simp add: partsOf_def js_split_def filter_Boolean_def)

lemma addOption_partsOf:
  "addOption d state option =
     (if partsOf d option = [] then Inr state
      else walkParts d (label option) [] (partsOf d option) (snd state) (fst state))"
proof (cases "val option")
  case (String s)
  then show ?thesis
    by (cases "js_trim s = []")
      (auto simp: addOption_def partsOf_trim_empty Let_def, auto simp: partsOf_def)
qed (simp_all add: addOption_def partsOf_def)

lemma addOption_wf:
  "addOption d (root, pt) option = Inr (root', pt') \<Longrightarrow> wf_level d [] root \<Longrightarrow> wf_level d [] root'"
  by (auto simp: addOption_partsOf split: if_splits dest: walkParts_wf)

lemma forEachOption_wf:
  "forEachOption d options (root, pt) = Inr (root', pt') \<Longrightarrow> wf_level d [] root
   \<Longrightarrow> wf_level d [] root'"
proof (induction options arbitrary: root pt)
  case Nil
  then show ?case by simp
next
  case (Cons option options)
  from Cons.prems(1) obtain root1 pt1 where
    a: "addOption d (root, pt) option = Inr (root1, pt1)" and
    f: "forEachOption d options (root1, pt1) = Inr (root', pt')"
    by (auto split: sum.splits)
  from Cons.IH[OF f addOption_wf[OF a Cons.prems(2)]] show ?case .
qed

lemma addOption_keeps:
  "addOption d (root, pt) option = Inr (root', pt') \<Longrightarrow> lookupPath root p = Some n
   \<Longrightarrow> \<exists>n'. lookupPath root' p = Some n' \<and> (p \<noteq> partsOf d option \<longrightarrow> in_title n' = in_title n)"
  by (auto simp: addOption_partsOf split: if_splits dest: walkParts_keeps)

lemma addOption_reuses:
  "addOption d (root, pt) option = Inr (root', pt') \<Longrightarrow> lookupPath root p = Some n
   \<Longrightarrow> \<exists>n'. lookupPath root' p = Some n' \<and> in_key n' = in_key n \<and> in_value n' = in_value n"
  by (auto simp: addOption_partsOf split: if_splits dest: walkParts_reuses)

lemma addOption_final_title:
  "addOption d (root, pt) option = Inr (root', pt') \<Longrightarrow> lookupPath root' (partsOf d option) = Some n
   \<Longrightarrow> in_title n = label option"
  by (auto simp: addOption_partsOf split: if_splits dest: walkParts_final_title)

lemma addOption_new:
  "addOption d (root, pt) option = Inr (root', pt') \<Longrightarrow> lookupPath root p = None
   \<Longrightarrow> lookupPath root' p = Some n'
   \<Longrightarrow> prefix p (partsOf d option) \<and> (p \<noteq> partsOf d option \<longrightarrow> in_title n' = last p)"
  by (auto simp: addOption_partsOf split: if_splits dest: walkParts_new)

lemma addOption_reaches:
  "addOption d (root, pt) option = Inr (root', pt') \<Longrightarrow> prefix p (partsOf d option) \<Longrightarrow> p \<noteq> []
   \<Longrightarrow> \<not> inherits (last p) \<Longrightarrow> lookupPath root' p \<noteq> None"
  by (auto simp: addOption_partsOf split: if_splits dest: walkParts_reaches)

lemma forEachOption_keeps:
  "forEachOption d options (root, pt) = Inr (root', pt') \<Longrightarrow> lookupPath root p \<noteq> None
   \<Longrightarrow> lookupPath root' p \<noteq> None"
proof (induction options arbitrary: root pt)
  case Nil
  then show ?case by simp
next
  case (Cons option options)
  from Cons.prems(1) obtain root1 pt1 where
    a: "addOption d (root, pt) option = Inr (root1, pt1)" and
    f: "forEachOption d options (root1, pt1) = Inr (root', pt')"
    by (auto split: sum.splits)
  from Cons.prems(2) addOption_keeps[OF a] have "lookupPath root1 p \<noteq> None" by fastforce
  from Cons.IH[OF f this] show ?case .
qed

lemma forEachOption_reaches:
  "forEachOption d options (root, pt) = Inr (root', pt') \<Longrightarrow> option \<in> set options
   \<Longrightarrow> prefix p (partsOf d option) \<Longrightarrow> p \<noteq> [] \<Longrightarrow> \<not> inherits (last p)
   \<Longrightarrow> lookupPath root' p \<noteq> None"
proof (induction options arbitrary: root pt)
  case Nil
  then show ?case by simp
next
  case (Cons o1 options)
  from Cons.prems(1) obtain root1 pt1 where
    a: "addOption d (root, pt) o1 = Inr (root1, pt1)" and
    f: "forEachOption d options (root1, pt1) = Inr (root', pt')"
    by (auto split: sum.splits)
  show ?case
  proof (cases "option = o1")
    case True
    with addOption_reaches[OF a] Cons.prems(3-5) have "lookupPath root1 p \<noteq> None" by simp
    from forEachOption_keeps[OF f this] show ?thesis .
  next
    case False
    with Cons.prems(2) have "option \<in> set options" by simp
    from Cons.IH[OF f this Cons.prems(3-5)] show ?thesis .
  qed
qed

lemma forEachOption_only:
  "forEachOption d options (root, pt) = Inr (root', pt') \<Longrightarrow> lookupPath root' p \<noteq> None
   \<Longrightarrow> lookupPath root p \<noteq> None \<or> (\<exists>option \<in> set options. prefix p (partsOf d option))"
proof (induction options arbitrary: root pt)
  case Nil
  then show ?case by simp
next
  case (Cons o1 options)
  from Cons.prems(1) obtain root1 pt1 where
    a: "addOption d (root, pt) o1 = Inr (root1, pt1)" and
    f: "forEachOption d options (root1, pt1) = Inr (root', pt')"
    by (auto split: sum.splits)
  from Cons.IH[OF f Cons.prems(2)]
  have "lookupPath root1 p \<noteq> None \<or> (\<exists>option \<in> set options. prefix p (partsOf d option))" .
  then show ?case
  proof
    assume "lookupPath root1 p \<noteq> None"
    then obtain n1 where n1: "lookupPath root1 p = Some n1" by auto
    show ?thesis
    proof (cases "lookupPath root p")
      case None
      from addOption_new[OF a None n1] show ?thesis by simp
    next
      case (Some n0)
      then show ?thesis by simp
    qed
  next
    assume "\<exists>option \<in> set options. prefix p (partsOf d option)"
    then show ?thesis by auto
  qed
qed

lemma forEachOption_title:
  "forEachOption d options (root, pt) = Inr (root', pt') \<Longrightarrow> wf_level d [] root
   \<Longrightarrow> lookupPath root' p = Some n
   \<Longrightarrow> in_title n =
       (if labelsFor d options p = []
        then (case lookupPath root p of Some n0 \<Rightarrow> in_title n0 | None \<Rightarrow> last p)
        else last (labelsFor d options p))"
proof (induction options arbitrary: root pt)
  case Nil
  then show ?case by (simp add: labelsFor_def)
next
  case (Cons o1 options)
  from Cons.prems(1) obtain root1 pt1 where
    a: "addOption d (root, pt) o1 = Inr (root1, pt1)" and
    f: "forEachOption d options (root1, pt1) = Inr (root', pt')"
    by (auto split: sum.splits)
  have wf1: "wf_level d [] root1"
    using a Cons.prems(2) by (rule addOption_wf)
  have wf': "wf_level d [] root'"
    using f wf1 by (rule forEachOption_wf)
  have p: "p \<noteq> []" and ni: "\<not> inherits (last p)"
    using lookupPath_wf[OF wf' Cons.prems(3)] Cons.prems(3) by auto
  note IH = Cons.IH[OF f wf1 Cons.prems(3)]
  show ?case
  proof (cases "labelsFor d options p = []")
    case False
    with IH show ?thesis by (simp add: labelsFor_def)
  next
    case True
    have step: "(case lookupPath root1 p of Some n1 \<Rightarrow> in_title n1 | None \<Rightarrow> last p) =
      (if partsOf d o1 = p then label o1
       else (case lookupPath root p of Some n0 \<Rightarrow> in_title n0 | None \<Rightarrow> last p))"
    proof (cases "partsOf d o1 = p")
      case same: True
      with addOption_reaches[OF a, of p] p ni obtain n1 where n1: "lookupPath root1 p = Some n1"
        by auto
      with addOption_final_title[OF a, of n1] same show ?thesis by simp
    next
      case other: False
      show ?thesis
      proof (cases "lookupPath root p")
        case (Some n0)
        with addOption_keeps[OF a Some] other show ?thesis by auto
      next
        case None
        show ?thesis
        proof (cases "lookupPath root1 p")
          case (Some n1)
          with addOption_new[OF a None Some] other None show ?thesis by auto
        qed (simp add: None other)
      qed
    qed
    from True IH step show ?thesis by (simp add: labelsFor_def)
  qed
qed

section \<open>Sorting and conversion\<close>

lemma toSortedTree_map [code]:
  "toSortedTree c nodeMap =
     map (dataNode c) (js_sort (\<lambda>a b. c (in_value a) (in_value b)) (Object_values nodeMap))"
  by (subst toSortedTree.simps) (simp add: dataNode_def)

lemma dataNode_sel [simp]:
  "sd_title (dataNode c n) = in_title n" "sd_value (dataNode c n) = in_value n"
  "sd_key (dataNode c n) = in_key n" "sd_selectable (dataNode c n) = True"
  "sd_children (dataNode c n) = toSortedTree c (in_children n)"
  by (simp_all add: dataNode_def)

lemma sd_sorted_node_dataNode:
  "sd_sorted_node c (dataNode c' n) = sd_sorted c (toSortedTree c' (in_children n))"
  by (simp add: dataNode_def sd_sorted_def)

lemma toSortedTree_sorted:
  "consistent_comparator c \<Longrightarrow> sd_sorted c (toSortedTree c nodeMap)"
proof (induction c nodeMap rule: toSortedTree.induct)
  case (1 c nodeMap)
  let ?L = "js_sort (\<lambda>a b. c (in_value a) (in_value b)) (Object_values nodeMap)"
  have "sorted_wrt (\<lambda>a b. c (in_value a) (in_value b) \<le> 0) ?L"
    using consistent_comparator_on[OF "1.prems", of in_value] by (rule sorted_js_sort)
  moreover have "\<forall>n \<in> set ?L. sd_sorted_node c (dataNode c n)"
    using "1.IH" "1.prems" by (simp add: sd_sorted_node_dataNode)
  ultimately show ?case
    by (simp add: toSortedTree_map[of c nodeMap] sd_sorted_def sorted_wrt_map)
qed

lemma sd_distinct_node_dataNode:
  "sd_distinct_node (dataNode c n) = sd_distinct (toSortedTree c (in_children n))"
  by (simp add: dataNode_def sd_distinct_def)

lemma wf_level_values_distinct:
  assumes "wf_level d seen cursor"
  shows "distinct (map (\<lambda>kn. in_value (snd kn)) cursor)"
proof -
  have "inj_on (\<lambda>kn. in_value (snd kn)) (set cursor)"
  proof (rule inj_onI)
    fix x y assume x: "x \<in> set cursor" and y: "y \<in> set cursor"
      and eq: "in_value (snd x) = in_value (snd y)"
    from assms x y have "wf_node d seen (fst x) (snd x)" "wf_node d seen (fst y) (snd y)"
      by (simp_all add: wf_level_def)
    then have "in_value (snd x) = js_join (seen @ [fst x]) d"
      "in_value (snd y) = js_join (seen @ [fst y]) d"
      unfolding wf_node_iff by blast+
    with eq have "fst x = fst y" by (auto dest: js_join_snoc_inj)
    moreover from assms have "inj_on fst (set cursor)"
      by (simp add: wf_level_def distinct_map)
    ultimately show "x = y" using x y by (auto dest: inj_onD)
  qed
  moreover from assms have "distinct cursor"
    by (simp add: wf_level_def distinct_map)
  ultimately show ?thesis by (simp add: distinct_map)
qed

lemma toSortedTree_distinct:
  "wf_level d seen nodeMap \<Longrightarrow> sd_distinct (toSortedTree c nodeMap)"
proof (induction c nodeMap arbitrary: seen rule: toSortedTree.induct)
  case (1 c nodeMap)
  let ?L = "js_sort (\<lambda>a b. c (in_value a) (in_value b)) (Object_values nodeMap)"
  have "mset (map in_value ?L) = mset (map (\<lambda>kn. in_value (snd kn)) nodeMap)"
    by (simp add: mset_js_sort mset_Object_values image_mset.compositionality comp_def)
  then have "distinct (map in_value ?L)"
    using wf_level_values_distinct[OF "1.prems"] by (metis mset_eq_imp_distinct_iff)
  moreover have "\<forall>n \<in> set ?L. sd_distinct_node (dataNode c n)"
  proof
    fix n assume n: "n \<in> set ?L"
    then obtain k where "(k, n) \<in> set nodeMap"
      by (auto simp: set_level)
    with "1.prems" have "wf_node d seen k n"
      unfolding wf_level_def by fastforce
    then have "wf_level d (seen @ [k]) (in_children n)"
      by (rule wf_node_children)
    from "1.IH"[OF n this] show "sd_distinct_node (dataNode c n)"
      by (simp add: sd_distinct_node_dataNode)
  qed
  ultimately show ?case
    by (simp add: toSortedTree_map[of c nodeMap] sd_distinct_def comp_def)
qed

subsection \<open>Chains of values in the sorted tree\<close>

lemma pathValues_eq_Nil [simp]: "pathValues d seen p = [] \<longleftrightarrow> p = []"
  by (cases p) simp_all

lemma pathValues_map:
  "pathValues d seen p = map (\<lambda>j. js_join (seen @ take (Suc j) p) d) [0..<length p]"
proof (induction p arbitrary: seen)
  case Nil
  then show ?case by simp
next
  case (Cons k ks)
  have "[0..<length (k # ks)] = 0 # map Suc [0..<length ks]"
    by (simp add: upt_conv_Cons map_Suc_upt del: upt_Suc)
  then show ?case
    by (simp add: Cons.IH comp_def del: upt_Suc)
qed

lemma find_level:
  assumes "wf_level d seen cursor"
  shows "find (\<lambda>n. sd_value n = js_join (seen @ [k]) d) (toSortedTree c cursor)
         = map_option (dataNode c) (map_of cursor k)"
proof -
  let ?L = "js_sort (\<lambda>a b. c (in_value a) (in_value b)) (Object_values cursor)"
  let ?P = "\<lambda>n. in_value n = js_join (seen @ [k]) d"
  have key: "\<And>k' n'. (k', n') \<in> set cursor \<Longrightarrow> ?P n' \<Longrightarrow> k' = k"
  proof -
    fix k' n' assume "(k', n') \<in> set cursor" "?P n'"
    with assms have "wf_node d seen k' n'" by (auto simp: wf_level_def)
    then have "in_value n' = js_join (seen @ [k']) d" unfolding wf_node_iff by blast
    with \<open>?P n'\<close> show "k' = k" by (auto dest: js_join_snoc_inj)
  qed
  from assms have dist: "distinct (map fst cursor)" by (simp add: wf_level_def)
  have "find ?P ?L = map_of cursor k"
  proof (cases "map_of cursor k")
    case None
    have "\<not> (\<exists>n \<in> set ?L. ?P n)"
    proof
      assume "\<exists>n \<in> set ?L. ?P n"
      then obtain k' n where kn: "(k', n) \<in> set cursor" "?P n"
        unfolding set_level by auto
      from key[OF kn] kn(1) have "k \<in> fst ` set cursor" by force
      with None show False by (simp add: map_of_eq_None_iff)
    qed
    with None show ?thesis by (simp add: find_None_iff)
  next
    case (Some n)
    then have mem: "(k, n) \<in> set cursor" by (rule map_of_SomeD)
    with assms have "wf_node d seen k n" by (auto simp: wf_level_def)
    then have Pn: "?P n" unfolding wf_node_iff by blast
    have "find ?P ?L = Some n"
    proof (rule find_unique)
      from mem have "snd (k, n) \<in> snd ` set cursor" by (rule imageI)
      then show "n \<in> set ?L" unfolding set_level by simp
      show "?P n" by (rule Pn)
    next
      fix y assume "y \<in> set ?L" "?P y"
      then obtain k' where k': "(k', y) \<in> set cursor" unfolding set_level by auto
      with key[OF k' \<open>?P y\<close>] have "(k, y) \<in> set cursor" by simp
      with dist have "map_of cursor k = Some y" by simp
      with Some show "y = n" by simp
    qed
    with Some show ?thesis by simp
  qed
  then show ?thesis
    by (simp add: toSortedTree_map[of c cursor] find_map_option)
qed

lemma sd_find_toSortedTree:
  "wf_level d seen cursor
   \<Longrightarrow> sd_find (toSortedTree c cursor) (pathValues d seen p)
       = map_option (dataNode c) (lookupPath cursor p)"
proof (induction p arbitrary: seen cursor)
  case Nil
  then show ?case by simp
next
  case (Cons k ks)
  show ?case
  proof (cases "map_of cursor k")
    case None
    then show ?thesis by (simp add: find_level[OF Cons.prems])
  next
    case (Some n)
    with Cons.prems have "wf_node d seen k n" by (rule wf_level_map_of)
    then have "wf_level d (seen @ [k]) (in_children n)" by (rule wf_node_children)
    from Cons.IH[OF this] Some show ?thesis
      by (simp add: find_level[OF Cons.prems])
  qed
qed

lemma find_level_Some:
  assumes "wf_level d seen cursor"
    and "find (\<lambda>n. sd_value n = v) (toSortedTree c cursor) = Some m"
  shows "\<exists>k n. map_of cursor k = Some n \<and> v = js_join (seen @ [k]) d \<and> m = dataNode c n"
proof -
  from assms(2) have "m \<in> set (toSortedTree c cursor)" "sd_value m = v"
    by (auto simp: find_Some_iff)
  then obtain k n where kn: "(k, n) \<in> set cursor" and m: "m = dataNode c n"
    unfolding toSortedTree_map[of c cursor] set_map set_level by auto
  from assms(1) kn have "wf_node d seen k n" by (auto simp: wf_level_def)
  then have "in_value n = js_join (seen @ [k]) d" unfolding wf_node_iff by blast
  with m \<open>sd_value m = v\<close> have v: "v = js_join (seen @ [k]) d" by simp
  from assms(1) kn have "map_of cursor k = Some n" by (simp add: wf_level_def)
  with v m show ?thesis by blast
qed

lemma sd_find_only_paths:
  "wf_level d seen cursor \<Longrightarrow> sd_find (toSortedTree c cursor) vs = Some m
   \<Longrightarrow> \<exists>p n. vs = pathValues d seen p \<and> lookupPath cursor p = Some n \<and> m = dataNode c n"
proof (induction vs arbitrary: seen cursor)
  case Nil
  then show ?case by simp
next
  case (Cons v vs)
  from Cons.prems(2) obtain m0 where
    m0: "find (\<lambda>n. sd_value n = v) (toSortedTree c cursor) = Some m0"
    by (auto split: option.splits)
  from find_level_Some[OF Cons.prems(1) m0] obtain k n where
    k: "map_of cursor k = Some n" "v = js_join (seen @ [k]) d" "m0 = dataNode c n"
    by blast
  show ?case
  proof (cases "vs = []")
    case True
    with Cons.prems(2) m0 k have "v # vs = pathValues d seen [k]" "lookupPath cursor [k] = Some n"
      "m = dataNode c n" by auto
    then show ?thesis by blast
  next
    case False
    from Cons.prems(1) k(1) have "wf_node d seen k n" by (rule wf_level_map_of)
    then have wfc: "wf_level d (seen @ [k]) (in_children n)" by (rule wf_node_children)
    from False Cons.prems(2) m0 k have "sd_find (toSortedTree c (in_children n)) vs = Some m"
      by simp
    from Cons.IH[OF wfc this] obtain p n' where
      p: "vs = pathValues d (seen @ [k]) p" "lookupPath (in_children n) p = Some n'"
        "m = dataNode c n'"
      by blast
    from p(1) False have "p \<noteq> []" by auto
    with p k have "v # vs = pathValues d seen (k # p)" "lookupPath cursor (k # p) = Some n'"
      by auto
    with p(3) show ?thesis by blast
  qed
qed

lemma buildTreeSelectData_Inr:
  assumes "buildTreeSelectData c pt options d = Inr (tree, pt')"
  obtains root where "forEachOption d options ([], pt) = Inr (root, pt')"
    "tree = toSortedTree c root" "wf_level d [] root"
proof -
  from assms obtain root where r: "forEachOption d options ([], pt) = Inr (root, pt')"
    "tree = toSortedTree c root"
    by (auto simp: buildTreeSelectData_def split: sum.splits)
  from forEachOption_wf[OF r(1) wf_level_Nil] r that show ?thesis by blast
qed

section \<open>The walk of buildTreeData\<close>

subsection \<open>Splitting at one code unit\<close>

lemma split_from_char:
  "split_from [c] acc (x # xs) =
     (if x = c then acc # split_from [c] [] xs else split_from [c] (acc @ [x]) xs)"
  by auto

lemma split_from_char_set:
  "x \<in> set (split_from [c] acc s) \<Longrightarrow> set x \<subseteq> set acc \<union> set s \<and> (c \<notin> set acc \<longrightarrow> c \<notin> set x)"
proof (induction s arbitrary: acc)
  case Nil
  then show ?case by simp
next
  case (Cons y ys)
  show ?case
  proof (cases "y = c")
    case True
    with Cons.prems have "x = acc \<or> x \<in> set (split_from [c] [] ys)"
      by (simp add: split_from_char del: split_from.simps)
    then show ?thesis
    proof
      assume "x = acc" then show ?thesis by auto
    next
      assume "x \<in> set (split_from [c] [] ys)"
      from Cons.IH[OF this] show ?thesis by auto
    qed
  next
    case False
    with Cons.prems have "x \<in> set (split_from [c] (acc @ [y]) ys)"
      by (simp add: split_from_char del: split_from.simps)
    from Cons.IH[OF this] False show ?thesis by auto
  qed
qed

lemma split_from_char_empty:
  "filter_Boolean (split_from [c] acc s) = [] \<Longrightarrow> acc = [] \<and> set s \<subseteq> {c}"
proof (induction s arbitrary: acc)
  case Nil
  then show ?case by (simp add: filter_Boolean_def split: if_splits)
next
  case (Cons y ys)
  show ?case
  proof (cases "y = c")
    case True
    with Cons.prems have "acc = []" "filter_Boolean (split_from [c] [] ys) = []"
      by (simp_all add: split_from_char filter_Boolean_def del: split_from.simps split: if_splits)
    with Cons.IH[of "[]"] True show ?thesis by simp
  next
    case False
    with Cons.prems have "filter_Boolean (split_from [c] (acc @ [y]) ys) = []"
      by (simp add: split_from_char del: split_from.simps)
    from Cons.IH[OF this] show ?thesis by simp
  qed
qed

lemma split_from_char_none:
  "c \<notin> set s \<Longrightarrow> split_from [c] acc s = [acc @ s]"
  by (induction s arbitrary: acc) (auto simp: split_from_char simp del: split_from.simps(2))

lemma split_from_char_nonempty:
  "\<exists>x \<in> set s. x \<noteq> c \<Longrightarrow> filter_Boolean (split_from [c] acc s) \<noteq> []"
  using split_from_char_empty[of c acc s] by auto

lemma segmentsOf_nonempty_parts: "x \<in> set (segmentsOf path) \<Longrightarrow> x \<noteq> []"
  by (simp add: segmentsOf_def filter_Boolean_def)

lemma segmentsOf_no_slash: "x \<in> set (segmentsOf path) \<Longrightarrow> CHR ''/'' \<notin> set x"
proof (cases "CHR ''/'' \<in> set path")
  case True
  assume "x \<in> set (segmentsOf path)"
  with True have "x \<in> set (split_from ''/'' [] path)"
    by (simp add: segmentsOf_def filter_Boolean_def js_split_def)
  from split_from_char_set[OF this] show ?thesis by simp
next
  case False
  assume "x \<in> set (segmentsOf path)"
  with False have "x \<in> set (split_from ''.'' [] path)"
    by (simp add: segmentsOf_def filter_Boolean_def js_split_def)
  from split_from_char_set[OF this] False show ?thesis by auto
qed

lemma segmentsOf_no_dot:
  "CHR ''/'' \<notin> set path \<Longrightarrow> x \<in> set (segmentsOf path) \<Longrightarrow> CHR ''.'' \<notin> set x"
proof -
  assume "CHR ''/'' \<notin> set path" "x \<in> set (segmentsOf path)"
  then have "x \<in> set (split_from ''.'' [] path)"
    by (simp add: segmentsOf_def filter_Boolean_def js_split_def)
  from split_from_char_set[OF this] show ?thesis by simp
qed

lemma segmentsOf_empty:
  "segmentsOf path = [] \<Longrightarrow> set path \<subseteq> {CHR ''/''} \<or> set path \<subseteq> {CHR ''.''}"
proof (cases "CHR ''/'' \<in> set path")
  case True
  assume "segmentsOf path = []"
  with True have "filter_Boolean (split_from ''/'' [] path) = []"
    by (simp add: segmentsOf_def js_split_def)
  from split_from_char_empty[OF this] show ?thesis by simp
next
  case False
  assume "segmentsOf path = []"
  with False have "filter_Boolean (split_from ''.'' [] path) = []"
    by (simp add: segmentsOf_def js_split_def)
  from split_from_char_empty[OF this] show ?thesis by simp
qed

lemma segmentsOf_slash_root:
  assumes "seg \<noteq> []" "CHR ''/'' \<notin> set seg"
  shows "segmentsOf (''/'' @ seg) \<noteq> []"
proof
  assume "segmentsOf (''/'' @ seg) = []"
  from segmentsOf_empty[OF this] assms show False
    by (cases seg) auto
qed

lemma segmentsOf_dot_root:
  assumes "seg \<noteq> []" "CHR ''/'' \<notin> set seg" "CHR ''.'' \<notin> set seg"
  shows "segmentsOf seg \<noteq> []"
proof
  assume "segmentsOf seg = []"
  from segmentsOf_empty[OF this] assms show False
    by (cases seg) auto
qed

lemma addPath_segmentsOf:
  "addPath roots path =
     (if segmentsOf path = [] then snd (ensureChild roots path path)
      else walkSegments (if CHR ''/'' \<in> set path then ''/'' else ''.'')
             (if CHR ''/'' \<in> set path then Some [] else None) (segmentsOf path) roots)"
  by (simp add: addPath_def js_includes_char Let_def segmentsOf_def)

subsection \<open>The invariant\<close>

lemma walkSegments_Cons:
  "walkSegments d assembled (segment # rest) currentMap =
     (let nextValue = assemble d assembled segment;
          node = (case map_of currentMap nextValue of
                    Some n \<Rightarrow> n
                  | None \<Rightarrow> MutableNode nextValue nextValue segment [])
      in AList.update nextValue
           (MutableNode (mn_key node) (mn_value node) (mn_title node)
              (walkSegments d (Some nextValue) rest (mn_childrenMap node)))
           currentMap)"
proof -
  let ?nv = "assemble d assembled segment"
  have w: "walkSegments d assembled (segment # rest) currentMap =
     (case ensureChild currentMap ?nv segment of
        (node, container) \<Rightarrow>
          AList.update ?nv
            (MutableNode (mn_key node) (mn_value node) (mn_title node)
               (walkSegments d (Some ?nv) rest (mn_childrenMap node)))
            container)"
    by (simp only: walkSegments.simps assemble_def Let_def)
  show ?thesis
  proof (cases "map_of currentMap ?nv")
    case None
    then show ?thesis
      unfolding w by (simp add: ensureChild_def Let_def)
  next
    case (Some n)
    then show ?thesis
      unfolding w by (simp add: ensureChild_def Let_def)
  qed
qed

lemma wf_mnode_iff:
  "wf_mnode parent k n \<longleftrightarrow>
     mn_key n = k \<and> mn_value n = k \<and> mn_title n = titleFor parent k
     \<and> (parent = None \<and> segmentsOf k = [] \<longrightarrow> mn_childrenMap n = [])
     \<and> wf_mlevel (Some k) (mn_childrenMap n)"
  by (cases n) (auto simp: wf_mlevel_def)

lemma wf_mlevel_map_of:
  "wf_mlevel parent m \<Longrightarrow> map_of m k = Some n \<Longrightarrow> wf_mnode parent k n"
  by (auto simp: wf_mlevel_def dest: map_of_SomeD)

lemma wf_mlevel_update:
  assumes "wf_mlevel parent m" and "wf_mnode parent k n"
  shows "wf_mlevel parent (AList.update k n m)"
proof -
  have "set (AList.update k n m) \<subseteq> insert (k, n) (set m)"
    by (induction m) auto
  with assms show ?thesis
    by (auto simp: wf_mlevel_def distinct_update)
qed

lemma wf_mlevel_Nil: "wf_mlevel parent []"
  by (simp add: wf_mlevel_def)

lemma walk_level_step:
  assumes "walk_level d assembled parent" "segment_ok d segment"
  shows "titleFor parent (assemble d assembled segment) = segment"
    and "parent = None \<Longrightarrow> segmentsOf (assemble d assembled segment) \<noteq> []"
    and "walk_level d (Some (assemble d assembled segment)) (Some (assemble d assembled segment))"
proof -
  from assms(2) have seg: "segment \<noteq> []" "CHR ''/'' \<notin> set segment"
    "d = ''.'' \<Longrightarrow> CHR ''.'' \<notin> set segment"
    by (auto simp: segment_ok_def)
  show "titleFor parent (assemble d assembled segment) = segment"
  proof (cases parent)
    case None
    show ?thesis
    proof (cases "d = ''/''")
      case True
      with None assms(1) have a: "assemble d assembled segment = ''/'' @ segment"
        by (simp add: walk_level_def assemble_def template_def)
      with segmentsOf_slash_root[OF seg(1,2)] None show ?thesis
        by (simp add: titleFor_def)
    next
      case False
      with None assms(1) have a: "assemble d assembled segment = segment" and d: "d = ''.''"
        by (auto simp: walk_level_def assemble_def)
      with segmentsOf_dot_root[OF seg(1,2) seg(3)[OF d]] seg(2) None show ?thesis
        by (simp add: titleFor_def)
    qed
  next
    case (Some a)
    with assms(1) have "assemble d assembled segment = a @ d @ segment" "length d = 1"
      by (auto simp: walk_level_def assemble_def template_def)
    with Some show ?thesis by (simp add: titleFor_def)
  qed
  show "segmentsOf (assemble d assembled segment) \<noteq> []" if "parent = None"
  proof (cases "d = ''/''")
    case True
    with that assms(1) have a: "assemble d assembled segment = ''/'' @ segment"
      by (simp add: walk_level_def assemble_def template_def)
    with segmentsOf_slash_root[OF seg(1,2)] show ?thesis by simp
  next
    case False
    with that assms(1) have a: "assemble d assembled segment = segment" and d: "d = ''.''"
      by (auto simp: walk_level_def assemble_def)
    with segmentsOf_dot_root[OF seg(1,2) seg(3)[OF d]] show ?thesis by simp
  qed
  from assms(1) seg(1) have "assemble d assembled segment \<noteq> []"
    by (auto simp: walk_level_def assemble_def)
  with assms(1) show
    "walk_level d (Some (assemble d assembled segment)) (Some (assemble d assembled segment))"
    by (auto simp: walk_level_def)
qed

lemma walkSegments_wf:
  "walk_level d assembled parent \<Longrightarrow> \<forall>segment \<in> set segments. segment_ok d segment
   \<Longrightarrow> wf_mlevel parent m \<Longrightarrow> wf_mlevel parent (walkSegments d assembled segments m)"
proof (induction segments arbitrary: assembled parent m)
  case Nil
  then show ?case by simp
next
  case (Cons segment rest)
  let ?nv = "assemble d assembled segment"
  let ?node = "case map_of m ?nv of Some n \<Rightarrow> n | None \<Rightarrow> MutableNode ?nv ?nv segment []"
  from Cons.prems(2) have ok: "segment_ok d segment" and rest: "\<forall>s \<in> set rest. segment_ok d s"
    by simp_all
  note step = walk_level_step[OF Cons.prems(1) ok]
  have wn: "wf_mnode parent ?nv ?node"
  proof (cases "map_of m ?nv")
    case None
    with step(1,2) show ?thesis by (auto simp: wf_mnode_iff wf_mlevel_Nil)
  next
    case (Some n)
    with wf_mlevel_map_of[OF Cons.prems(3) Some] show ?thesis by simp
  qed
  then have "wf_mlevel (Some ?nv) (mn_childrenMap ?node)"
    unfolding wf_mnode_iff by blast
  from Cons.IH[OF step(3) rest this]
  have "wf_mlevel (Some ?nv) (walkSegments d (Some ?nv) rest (mn_childrenMap ?node))" .
  with wn step(2) have "wf_mnode parent ?nv
     (MutableNode (mn_key ?node) (mn_value ?node) (mn_title ?node)
        (walkSegments d (Some ?nv) rest (mn_childrenMap ?node)))"
    unfolding wf_mnode_iff by auto
  from wf_mlevel_update[OF Cons.prems(3) this] show ?case
    by (simp only: walkSegments_Cons Let_def)
qed

lemma ensureChild_snd:
  "snd (ensureChild m k t) =
     (case map_of m k of Some n \<Rightarrow> m | None \<Rightarrow> AList.update k (MutableNode k k t []) m)"
  by (simp add: ensureChild_def Let_def split: option.splits)

lemma segments_ok:
  "\<forall>segment \<in> set (segmentsOf path). segment_ok (if CHR ''/'' \<in> set path then ''/'' else ''.'') segment"
  by (auto simp: segment_ok_def dest: segmentsOf_nonempty_parts segmentsOf_no_slash segmentsOf_no_dot)

lemma walk_level_root:
  "walk_level (if CHR ''/'' \<in> set path then ''/'' else ''.'')
     (if CHR ''/'' \<in> set path then Some [] else None) None"
  by (simp add: walk_level_def)

lemma addPath_wf: "wf_mlevel None roots \<Longrightarrow> wf_mlevel None (addPath roots path)"
proof (cases "segmentsOf path = []")
  case True
  assume wf: "wf_mlevel None roots"
  have "wf_mnode None path (MutableNode path path path [])"
    using True by (simp add: titleFor_def)
  from wf_mlevel_update[OF wf this] wf True show ?thesis
    by (simp add: addPath_segmentsOf ensureChild_snd split: option.splits)
next
  case False
  assume wf: "wf_mlevel None roots"
  have "wf_mlevel None (walkSegments (if CHR ''/'' \<in> set path then ''/'' else ''.'')
      (if CHR ''/'' \<in> set path then Some [] else None) (segmentsOf path) roots)"
    by (rule walkSegments_wf[OF walk_level_root segments_ok wf])
  with False show ?thesis
    by (simp add: addPath_segmentsOf)
qed

lemma foldl_addPath_wf: "wf_mlevel None roots \<Longrightarrow> wf_mlevel None (foldl addPath roots paths)"
  by (induction paths arbitrary: roots) (simp_all add: addPath_wf)

subsection \<open>The nodes before and after a walk\<close>

lemma lookupChain_Nil_tree [simp]: "lookupChain [] p = None"
  by (cases p) simp_all

lemma walkSegments_chain:
  "lookupChain (walkSegments d assembled segments m) p \<noteq> None \<longleftrightarrow>
     lookupChain m p \<noteq> None \<or> (p \<noteq> [] \<and> prefix p (assembledValues d assembled segments))"
proof (induction segments arbitrary: assembled m p)
  case Nil
  then show ?case by auto
next
  case (Cons segment rest)
  let ?nv = "assemble d assembled segment"
  let ?node = "case map_of m ?nv of Some n \<Rightarrow> n | None \<Rightarrow> MutableNode ?nv ?nv segment []"
  let ?children = "walkSegments d (Some ?nv) rest (mn_childrenMap ?node)"
  let ?node' = "MutableNode (mn_key ?node) (mn_value ?node) (mn_title ?node) ?children"
  have w: "walkSegments d assembled (segment # rest) m = AList.update ?nv ?node' m"
    by (simp only: walkSegments_Cons Let_def)
  show ?case
  proof (cases p)
    case Nil
    then show ?thesis by simp
  next
    case (Cons k ks)
    show ?thesis
    proof (cases "k = ?nv")
      case False
      with Cons show ?thesis unfolding w by (simp add: update_conv')
    next
      case True
      show ?thesis
      proof (cases "ks = []")
        case e: True
        with Cons True show ?thesis unfolding w by (simp add: update_conv')
      next
        case ne: False
        have old: "lookupChain m (?nv # ks) = lookupChain (mn_childrenMap ?node) ks"
          using ne by (simp split: option.splits)
        have "lookupChain (AList.update ?nv ?node' m) (?nv # ks) = lookupChain ?children ks"
          using ne by (simp add: update_conv')
        with Cons.IH[of "Some ?nv" "mn_childrenMap ?node" ks] old ne Cons True
        show ?thesis unfolding w by simp
      qed
    qed
  qed
qed

lemma walkSegments_reuses:
  "lookupChain m p = Some n
   \<Longrightarrow> \<exists>n'. lookupChain (walkSegments d assembled segments m) p = Some n'
          \<and> mn_key n' = mn_key n \<and> mn_value n' = mn_value n \<and> mn_title n' = mn_title n"
proof (induction segments arbitrary: assembled m p)
  case Nil
  then show ?case by simp
next
  case (Cons segment rest)
  let ?nv = "assemble d assembled segment"
  let ?node = "case map_of m ?nv of Some n \<Rightarrow> n | None \<Rightarrow> MutableNode ?nv ?nv segment []"
  let ?children = "walkSegments d (Some ?nv) rest (mn_childrenMap ?node)"
  let ?node' = "MutableNode (mn_key ?node) (mn_value ?node) (mn_title ?node) ?children"
  have w: "walkSegments d assembled (segment # rest) m = AList.update ?nv ?node' m"
    by (simp only: walkSegments_Cons Let_def)
  from Cons.prems obtain k ks where p: "p = k # ks"
    by (cases p) auto
  show ?case
  proof (cases "k = ?nv")
    case False
    with Cons.prems p show ?thesis unfolding w by (simp add: update_conv')
  next
    case True
    with Cons.prems p obtain n0 where n0: "map_of m ?nv = Some n0"
      by (auto split: option.splits)
    show ?thesis
    proof (cases "ks = []")
      case e: True
      with Cons.prems p True n0 show ?thesis unfolding w by (auto simp: update_conv')
    next
      case ne: False
      with Cons.prems p True n0 have "lookupChain (mn_childrenMap n0) ks = Some n" by simp
      from Cons.IH[OF this, of "Some ?nv"] n0 ne p True show ?thesis
        unfolding w by (simp add: update_conv')
    qed
  qed
qed

lemma ensureChild_chain:
  "lookupChain (snd (ensureChild m k t)) p \<noteq> None \<longleftrightarrow> lookupChain m p \<noteq> None \<or> p = [k]"
proof (cases "map_of m k")
  case (Some n)
  then have "snd (ensureChild m k t) = m" by (simp add: ensureChild_snd)
  with Some show ?thesis by auto
next
  case None
  then have e: "snd (ensureChild m k t) = AList.update k (MutableNode k k t []) m"
    by (simp add: ensureChild_snd)
  show ?thesis
  proof (cases p)
    case Nil
    then show ?thesis by simp
  next
    case (Cons k' ks)
    with None show ?thesis unfolding e by (auto simp: update_conv')
  qed
qed

lemma addPath_chain:
  "lookupChain (addPath roots path) p \<noteq> None \<longleftrightarrow>
     lookupChain roots p \<noteq> None \<or> (p \<noteq> [] \<and> prefix p (entryChain path))"
proof (cases "segmentsOf path = []")
  case True
  have "p \<noteq> [] \<and> prefix p [path] \<longleftrightarrow> p = [path]"
    by (cases p) auto
  with True ensureChild_chain[of roots path path p] show ?thesis
    by (simp add: addPath_segmentsOf entryChain_def)
next
  case False
  then show ?thesis
    by (simp add: addPath_segmentsOf entryChain_def walkSegments_chain del: not_None_eq)
qed

lemma addPath_reuses:
  assumes "lookupChain roots p = Some n"
  shows "\<exists>n'. lookupChain (addPath roots path) p = Some n'
          \<and> mn_key n' = mn_key n \<and> mn_value n' = mn_value n \<and> mn_title n' = mn_title n"
proof (cases "segmentsOf path = []")
  case True
  show ?thesis
  proof (cases "map_of roots path")
    case None
    from assms obtain k ks where p: "p = k # ks" by (cases p) auto
    with assms None have "k \<noteq> path" by (auto split: option.splits)
    with assms p None True show ?thesis
      by (simp add: addPath_segmentsOf ensureChild_snd update_conv')
  next
    case (Some n0)
    with assms True show ?thesis by (simp add: addPath_segmentsOf ensureChild_snd)
  qed
next
  case False
  with walkSegments_reuses[OF assms] show ?thesis
    by (simp add: addPath_segmentsOf)
qed

lemma foldl_addPath_chain:
  "lookupChain (foldl addPath roots paths) p \<noteq> None \<longleftrightarrow>
     lookupChain roots p \<noteq> None \<or> (p \<noteq> [] \<and> (\<exists>path \<in> set paths. prefix p (entryChain path)))"
proof (induction paths arbitrary: roots)
  case Nil
  then show ?case by simp
next
  case (Cons path paths)
  show ?case
    unfolding foldl_Cons Cons.IH addPath_chain by auto
qed

lemma lookupChain_wf:
  "wf_mlevel parent m \<Longrightarrow> lookupChain m p = Some n \<Longrightarrow> wf_mnode (chainParent parent p) (last p) n"
proof (induction p arbitrary: parent m)
  case Nil
  then show ?case by simp
next
  case (Cons k ks)
  from Cons.prems(2) obtain n0 where n0: "map_of m k = Some n0"
    by (auto split: option.splits)
  with Cons.prems(1) have w0: "wf_mnode parent k n0" by (rule wf_mlevel_map_of)
  show ?case
  proof (cases "ks = []")
    case True
    with n0 Cons.prems(2) w0 show ?thesis by simp
  next
    case False
    with n0 Cons.prems(2) have "lookupChain (mn_childrenMap n0) ks = Some n" by simp
    moreover from w0 have "wf_mlevel (Some k) (mn_childrenMap n0)"
      unfolding wf_mnode_iff by blast
    ultimately have "wf_mnode (chainParent (Some k) ks) (last ks) n" by (rule Cons.IH[rotated])
    with False show ?thesis by simp
  qed
qed

subsection \<open>Conversion\<close>

lemma convertNode_sel [simp]:
  "tn_key (convertNode n) = mn_key n" "tn_value (convertNode n) = mn_value n"
  "tn_title (convertNode n) = mn_title n"
  "tn_children (convertNode n) = map (\<lambda>kn. convertNode (snd kn)) (mn_childrenMap n)"
  by (cases n; simp)+

lemma find_converted:
  "wf_mlevel parent m
   \<Longrightarrow> find (\<lambda>n. tn_value n = k) (map (\<lambda>kn. convertNode (snd kn)) m)
       = map_option convertNode (map_of m k)"
proof (induction m)
  case Nil
  then show ?case by simp
next
  case (Cons kn m)
  from Cons.prems have wf: "wf_mlevel parent m" and kn: "wf_mnode parent (fst kn) (snd kn)"
    by (simp_all add: wf_mlevel_def)
  from kn have v: "mn_value (snd kn) = fst kn" unfolding wf_mnode_iff by blast
  show ?case
  proof (cases "fst kn = k")
    case True
    with v show ?thesis by (cases kn) simp
  next
    case False
    with v Cons.IH[OF wf] show ?thesis by (cases kn) auto
  qed
qed

lemma tn_find_converted:
  "wf_mlevel parent m
   \<Longrightarrow> tn_find (map (\<lambda>kn. convertNode (snd kn)) m) p = map_option convertNode (lookupChain m p)"
proof (induction p arbitrary: parent m)
  case Nil
  then show ?case by simp
next
  case (Cons k ks)
  show ?case
  proof (cases "map_of m k")
    case None
    then show ?thesis by (simp add: find_converted[OF Cons.prems])
  next
    case (Some n)
    with Cons.prems have "wf_mnode parent k n" by (rule wf_mlevel_map_of)
    then have "wf_mlevel (Some k) (mn_childrenMap n)" unfolding wf_mnode_iff by blast
    from Cons.IH[OF this] Some show ?thesis
      by (simp add: find_converted[OF Cons.prems])
  qed
qed

lemma wf_mlevel_values:
  assumes "wf_mlevel parent m"
  shows "map (\<lambda>kn. tn_value (convertNode (snd kn))) m = map fst m"
proof (rule map_cong[OF refl])
  fix kn assume "kn \<in> set m"
  with assms have "wf_mnode parent (fst kn) (snd kn)" by (simp add: wf_mlevel_def)
  then show "tn_value (convertNode (snd kn)) = fst kn" unfolding wf_mnode_iff by simp
qed

lemma convertNode_distinct: "wf_mnode parent k n \<Longrightarrow> tn_distinct_node (convertNode n)"
proof (induction n arbitrary: parent k)
  case (MutableNode key v t children)
  from MutableNode.prems have wf: "wf_mlevel (Some k) children"
    unfolding wf_mnode_iff by simp
  then have "distinct (map (\<lambda>kn. tn_value (convertNode (snd kn))) children)"
    unfolding wf_mlevel_values[OF wf] by (simp add: wf_mlevel_def)
  moreover have "\<forall>kn \<in> set children. tn_distinct_node (convertNode (snd kn))"
  proof
    fix kn assume kn: "kn \<in> set children"
    with wf have "wf_mnode (Some k) (fst kn) (snd kn)" by (simp add: wf_mlevel_def)
    moreover have "snd kn \<in> Basic_BNFs.snds kn" by (cases kn) simp
    ultimately show "tn_distinct_node (convertNode (snd kn))"
      using MutableNode.IH[OF kn] by blast
  qed
  ultimately show ?case by (simp add: comp_def)
qed

lemma converted_distinct:
  assumes "wf_mlevel parent m"
  shows "tn_distinct (map (\<lambda>kn. convertNode (snd kn)) m)"
proof -
  from assms have "distinct (map (\<lambda>kn. tn_value (convertNode (snd kn))) m)"
    unfolding wf_mlevel_values[OF assms] by (simp add: wf_mlevel_def)
  moreover have "\<forall>kn \<in> set m. tn_distinct_node (convertNode (snd kn))"
  proof
    fix kn assume "kn \<in> set m"
    with assms have "wf_mnode parent (fst kn) (snd kn)" by (simp add: wf_mlevel_def)
    then show "tn_distinct_node (convertNode (snd kn))" by (rule convertNode_distinct)
  qed
  ultimately show ?thesis by (simp add: tn_distinct_def comp_def)
qed

lemma filter_converted:
  "wf_mlevel parent m
   \<Longrightarrow> filter (\<lambda>n. tn_value n = k) (map (\<lambda>kn. convertNode (snd kn)) m)
       = (case map_of m k of None \<Rightarrow> [] | Some n \<Rightarrow> [convertNode n])"
proof (induction m)
  case Nil
  then show ?case by simp
next
  case (Cons kn m)
  from Cons.prems have wf: "wf_mlevel parent m" and kn: "wf_mnode parent (fst kn) (snd kn)"
    and fresh: "fst kn \<notin> fst ` set m"
    by (simp_all add: wf_mlevel_def)
  from kn have v: "mn_value (snd kn) = fst kn" unfolding wf_mnode_iff by blast
  show ?case
  proof (cases "fst kn = k")
    case True
    with fresh have "map_of m k = None" by (simp add: map_of_eq_None_iff)
    with True v Cons.IH[OF wf] show ?thesis by (cases kn) simp
  next
    case False
    with v Cons.IH[OF wf] show ?thesis by (cases kn) auto
  qed
qed

subsection \<open>The chain of a path in closed form\<close>

lemma assembledValues_after:
  assumes "d = ''/'' \<or> (d = ''.'' \<and> a \<noteq> [])" "\<forall>s \<in> set segments. s \<noteq> []"
  shows "assembledValues d (Some a) segments
         = map (\<lambda>j. a @ d @ js_join (take (Suc j) segments) d) [0..<length segments]"
  using assms
proof (induction segments arbitrary: a)
  case Nil
  then show ?case by simp
next
  case (Cons segment rest)
  let ?nv = "a @ d @ segment"
  from Cons.prems have nv: "assemble d (Some a) segment = ?nv"
    by (auto simp: assemble_def template_def)
  from Cons.prems have "d = ''/'' \<or> (d = ''.'' \<and> ?nv \<noteq> [])" "\<forall>s \<in> set rest. s \<noteq> []"
    by auto
  from Cons.IH[OF this]
  have "assembledValues d (Some ?nv) rest
        = map (\<lambda>j. ?nv @ d @ js_join (take (Suc j) rest) d) [0..<length rest]" .
  moreover have "\<And>j. j < length rest \<Longrightarrow>
      ?nv @ d @ js_join (take (Suc j) rest) d = a @ d @ js_join (take (Suc (Suc j)) (segment # rest)) d"
  proof -
    fix j assume "j < length rest"
    then have "take (Suc j) rest \<noteq> []" by (cases rest) auto
    then show "?nv @ d @ js_join (take (Suc j) rest) d
               = a @ d @ js_join (take (Suc (Suc j)) (segment # rest)) d"
      by (simp add: js_join_Cons)
  qed
  ultimately have "assembledValues d (Some ?nv) rest
        = map (\<lambda>j. a @ d @ js_join (take (Suc (Suc j)) (segment # rest)) d) [0..<length rest]"
    by simp
  then show ?case
    by (simp add: nv upt_Suc_shift[of "length rest"] comp_def del: upt_Suc take_Suc_Cons)
       (simp add: take_Suc_Cons)
qed

lemma assembledValues_root:
  assumes "\<forall>s \<in> set segments. s \<noteq> []"
  shows "assembledValues (if slash then ''/'' else ''.'') (if slash then Some [] else None) segments
         = map (\<lambda>j. if slash then ''/'' @ js_join (take (Suc j) segments) ''/''
                     else js_join (take (Suc j) segments) ''.'') [0..<length segments]"
proof (cases slash)
  case True
  with assembledValues_after[of "''/''" "[]" segments] assms show ?thesis by simp
next
  case False
  show ?thesis
  proof (cases segments)
    case Nil
    then show ?thesis by simp
  next
    case (Cons segment rest)
    with assms have s: "segment \<noteq> []" "\<forall>s \<in> set rest. s \<noteq> []" by auto
    have nv: "assemble ''.'' None segment = segment" by (simp add: assemble_def)
    have "\<And>j. j < length rest \<Longrightarrow>
      segment @ ''.'' @ js_join (take (Suc j) rest) ''.'' = js_join (take (Suc (Suc j)) (segment # rest)) ''.''"
    proof -
      fix j assume "j < length rest"
      then have "take (Suc j) rest \<noteq> []" by (cases rest) auto
      then show "segment @ ''.'' @ js_join (take (Suc j) rest) ''.''
                 = js_join (take (Suc (Suc j)) (segment # rest)) ''.''"
        by (simp add: js_join_Cons)
    qed
    with assembledValues_after[of "''.''" segment rest] s
    have "assembledValues ''.'' (Some segment) rest
          = map (\<lambda>j. js_join (take (Suc (Suc j)) (segment # rest)) ''.'') [0..<length rest]"
      by simp
    with False Cons show ?thesis
      by (simp add: nv upt_Suc_shift[of "length rest"] comp_def del: upt_Suc take_Suc_Cons)
         (simp add: take_Suc_Cons)
  qed
qed

lemma entryChain_segments:
  "segmentsOf path \<noteq> [] \<Longrightarrow>
   entryChain path = map (\<lambda>j. if CHR ''/'' \<in> set path
                              then ''/'' @ js_join (take (Suc j) (segmentsOf path)) ''/''
                              else js_join (take (Suc j) (segmentsOf path)) ''.'')
                        [0..<length (segmentsOf path)]"
  using assembledValues_root[of "segmentsOf path" "CHR ''/'' \<in> set path"]
  by (simp add: entryChain_def segmentsOf_nonempty_parts)

lemma chainParent_take:
  "k < length chain \<Longrightarrow>
   chainParent parent (take (Suc k) chain) = (if k = 0 then parent else Some (chain ! (k - 1)))"
proof (induction chain arbitrary: parent k)
  case Nil
  then show ?case by simp
next
  case (Cons c chain)
  show ?case
  proof (cases k)
    case 0
    then show ?thesis by simp
  next
    case (Suc k')
    with Cons.prems have k': "k' < length chain" by simp
    then have "take (Suc k') chain \<noteq> []" by (cases chain) auto
    with Cons.IH[OF k', of "Some c"] Suc show ?thesis
      by (cases k') auto
  qed
qed

lemma titleFor_entryChain:
  assumes "k < length (segmentsOf path)"
  shows "titleFor (chainParent None (take (Suc k) (entryChain path))) (entryChain path ! k)
         = segmentsOf path ! k"
proof -
  let ?segs = "segmentsOf path"
  let ?slash = "CHR ''/'' \<in> set path"
  let ?f = "\<lambda>j. if ?slash then ''/'' @ js_join (take (Suc j) ?segs) ''/''
                 else js_join (take (Suc j) ?segs) ''.''"
  from assms have ne: "?segs \<noteq> []" by auto
  have c: "entryChain path = map ?f [0..<length ?segs]"
    by (rule entryChain_segments[OF ne])
  then have len: "length (entryChain path) = length ?segs" by simp
  from assms have seg: "?segs ! k \<in> set ?segs" by simp
  have at: "\<And>j. j < length ?segs \<Longrightarrow> entryChain path ! j = ?f j"
    unfolding c by simp
  show ?thesis
  proof (cases k)
    case 0
    from ne have t1: "take (Suc 0) ?segs = [?segs ! 0]" by (cases ?segs) simp_all
    from 0 assms at[of 0] t1 have v: "entryChain path ! k = (if ?slash then ''/'' @ ?segs ! 0 else ?segs ! 0)"
      by simp
    from seg 0 have s: "?segs ! 0 \<noteq> []" "CHR ''/'' \<notin> set (?segs ! 0)"
      using segmentsOf_nonempty_parts segmentsOf_no_slash by auto
    show ?thesis
    proof (cases ?slash)
      case True
      with v s segmentsOf_slash_root[OF s] 0 assms len show ?thesis
        by (simp add: chainParent_take titleFor_def)
    next
      case False
      with seg 0 have "CHR ''.'' \<notin> set (?segs ! 0)" using segmentsOf_no_dot by auto
      from segmentsOf_dot_root[OF s this] False v s 0 assms len show ?thesis
        by (simp add: chainParent_take titleFor_def)
    qed
  next
    case (Suc k')
    with assms have k': "k' < length ?segs" by simp
    from assms Suc have tk: "take (Suc k) ?segs = take (Suc k') ?segs @ [?segs ! k]"
      by (simp add: take_Suc_conv_app_nth)
    from k' ne have nn: "take (Suc k') ?segs \<noteq> []" by (cases ?segs) auto
    have "entryChain path ! k = entryChain path ! k' @ (if ?slash then ''/'' else ''.'') @ ?segs ! k"
      unfolding at[OF assms] at[OF k'] tk js_join_snoc using nn by simp
    with Suc assms len show ?thesis
      by (simp add: chainParent_take titleFor_def)
  qed
qed

lemma buildTreeData_roots:
  obtains roots where "buildTreeData values = map (\<lambda>kn. convertNode (snd kn)) roots"
    "roots = foldl addPath [] values" "wf_mlevel None roots"
  using foldl_addPath_wf[OF wf_mlevel_Nil, of "values"] by (simp add: buildTreeData_def)

section \<open>Nodes of the returned trees\<close>

lemma buildTreeSelectData_node_at:
  assumes "buildTreeSelectData c pt options d = Inr (tree, pt')"
    and "option \<in> set options" and "i < length (partsOf d option)"
    and "\<not> inherits (partsOf d option ! i)"
  shows "\<exists>n. sd_find tree (map (\<lambda>j. js_join (take (Suc j) (partsOf d option)) d) [0..<Suc i]) = Some n
           \<and> sd_value n = js_join (take (Suc i) (partsOf d option)) d \<and> sd_key n = sd_value n"
  using assms(1)
proof (cases rule: buildTreeSelectData_Inr)
  case (1 root)
  let ?p = "take (Suc i) (partsOf d option)"
  from assms(3) have p: "prefix ?p (partsOf d option)" "?p \<noteq> []" "last ?p = partsOf d option ! i"
    "length ?p = Suc i"
    by (auto simp: take_is_prefix last_take_Suc min_def)
  with forEachOption_reaches[OF 1(1) assms(2), of ?p] assms(4)
  obtain n where n: "lookupPath root ?p = Some n" by auto
  have "map (\<lambda>j. js_join (take (Suc j) ?p) d) [0..<length ?p]
        = map (\<lambda>j. js_join (take (Suc j) (partsOf d option)) d) [0..<Suc i]"
    unfolding p(4) by (rule map_cong) (auto simp: min_def)
  with sd_find_toSortedTree[OF 1(3), of c ?p] n 1(2)
  have "sd_find tree (map (\<lambda>j. js_join (take (Suc j) (partsOf d option)) d) [0..<Suc i])
        = Some (dataNode c n)"
    by (simp add: pathValues_map del: upt_Suc)
  moreover from lookupPath_wf[OF 1(3) n] have "in_value n = js_join ?p d" "in_key n = in_value n"
    by simp_all
  ultimately show ?thesis by simp
qed

lemma buildTreeData_node_at:
  assumes "path \<in> set values" and "i < length (segmentsOf path)"
  shows "\<exists>n. tn_find (buildTreeData values) (take (Suc i) (entryChain path)) = Some n
           \<and> tn_value n = entryChain path ! i \<and> tn_key n = tn_value n"
proof -
  obtain roots where r: "buildTreeData values = map (\<lambda>kn. convertNode (snd kn)) roots"
    "roots = foldl addPath [] values" "wf_mlevel None roots"
    by (rule buildTreeData_roots)
  from assms(2) have ne: "segmentsOf path \<noteq> []" by auto
  from entryChain_segments[OF ne] have len: "length (entryChain path) = length (segmentsOf path)"
    by simp
  let ?p = "take (Suc i) (entryChain path)"
  from assms(2) len have p: "prefix ?p (entryChain path)" "?p \<noteq> []" "last ?p = entryChain path ! i"
    by (auto simp: take_is_prefix last_take_Suc min_def)
  with assms(1) have "lookupChain roots ?p \<noteq> None"
    unfolding r(2) foldl_addPath_chain by auto
  then obtain n where n: "lookupChain roots ?p = Some n" by auto
  from lookupChain_wf[OF r(3) n] p(3) have "mn_value n = entryChain path ! i" "mn_key n = mn_value n"
    unfolding wf_mnode_iff by simp_all
  with tn_find_converted[OF r(3), of ?p] n r(1) show ?thesis by simp
qed

lemma buildTreeData_node_title_at:
  assumes "path \<in> set values" and "i < length (segmentsOf path)"
  shows "\<exists>n. tn_find (buildTreeData values) (take (Suc i) (entryChain path)) = Some n
           \<and> tn_value n = entryChain path ! i \<and> tn_key n = tn_value n
           \<and> tn_title n = segmentsOf path ! i"
proof -
  obtain roots where r: "buildTreeData values = map (\<lambda>kn. convertNode (snd kn)) roots"
    "roots = foldl addPath [] values" "wf_mlevel None roots"
    by (rule buildTreeData_roots)
  from assms(2) have ne: "segmentsOf path \<noteq> []" by auto
  from entryChain_segments[OF ne] have len: "length (entryChain path) = length (segmentsOf path)"
    by simp
  let ?p = "take (Suc i) (entryChain path)"
  from assms(2) len have p: "prefix ?p (entryChain path)" "?p \<noteq> []" "last ?p = entryChain path ! i"
    by (auto simp: take_is_prefix last_take_Suc min_def)
  with assms(1) have "lookupChain roots ?p \<noteq> None"
    unfolding r(2) foldl_addPath_chain by auto
  then obtain n where n: "lookupChain roots ?p = Some n" by auto
  from lookupChain_wf[OF r(3) n] p(3)
  have "mn_value n = entryChain path ! i" "mn_key n = mn_value n"
    "mn_title n = titleFor (chainParent None ?p) (entryChain path ! i)"
    unfolding wf_mnode_iff by simp_all
  with tn_find_converted[OF r(3), of ?p] n r(1) titleFor_entryChain[OF assms(2)]
  show ?thesis by simp
qed

lemma buildTreeSelectData_same_chains:
  assumes "set options1 = set options2"
    and "buildTreeSelectData c pt1 options1 d = Inr (tree1, pt1')"
    and "buildTreeSelectData c pt2 options2 d = Inr (tree2, pt2')"
    and "sd_find tree1 vs = Some m1"
  shows "\<exists>m2. sd_find tree2 vs = Some m2 \<and> sd_value m2 = sd_value m1 \<and> sd_key m2 = sd_key m1"
  using assms(2)
proof (cases rule: buildTreeSelectData_Inr)
  case r1: (1 root1)
  from assms(3) show ?thesis
  proof (cases rule: buildTreeSelectData_Inr)
    case r2: (1 root2)
    from sd_find_only_paths[OF r1(3), of c vs m1] assms(4) r1(2) obtain p n1 where
      p: "vs = pathValues d [] p" "lookupPath root1 p = Some n1" "m1 = dataNode c n1"
      by auto
    from lookupPath_wf[OF r1(3) p(2)] p(2)
    have v1: "in_value n1 = js_join p d" "in_key n1 = js_join p d" and ni: "\<not> inherits (last p)"
      and ne: "p \<noteq> []"
      by auto
    from forEachOption_only[OF r1(1), of p] p(2) obtain option where
      o: "option \<in> set options1" "prefix p (partsOf d option)"
      by auto
    with assms(1) have "option \<in> set options2" by simp
    from forEachOption_reaches[OF r2(1) this o(2) ne ni] obtain n2 where
      n2: "lookupPath root2 p = Some n2" by auto
    from lookupPath_wf[OF r2(3) n2]
    have v2: "in_value n2 = js_join p d" "in_key n2 = js_join p d" by simp_all
    from sd_find_toSortedTree[OF r2(3), of c p] n2 r2(2) p(1)
    have "sd_find tree2 vs = Some (dataNode c n2)" by simp
    with v1 v2 p(3) show ?thesis by simp
  qed
qed

lemma buildTreeData_same_chains:
  assumes "set values1 = set values2"
  shows "map_option (\<lambda>n. (tn_key n, tn_value n, tn_title n)) (tn_find (buildTreeData values1) vs)
       = map_option (\<lambda>n. (tn_key n, tn_value n, tn_title n)) (tn_find (buildTreeData values2) vs)"
proof -
  obtain roots1 where r1: "buildTreeData values1 = map (\<lambda>kn. convertNode (snd kn)) roots1"
    "roots1 = foldl addPath [] values1" "wf_mlevel None roots1"
    by (rule buildTreeData_roots)
  obtain roots2 where r2: "buildTreeData values2 = map (\<lambda>kn. convertNode (snd kn)) roots2"
    "roots2 = foldl addPath [] values2" "wf_mlevel None roots2"
    by (rule buildTreeData_roots)
  have same: "lookupChain roots1 vs \<noteq> None \<longleftrightarrow> lookupChain roots2 vs \<noteq> None"
    unfolding r1(2) r2(2) foldl_addPath_chain assms by simp
  have content: "\<And>roots n. wf_mlevel None roots \<Longrightarrow> lookupChain roots vs = Some n
      \<Longrightarrow> (mn_key n, mn_value n, mn_title n)
          = (last vs, last vs, titleFor (chainParent None vs) (last vs))"
  proof -
    fix roots n assume "wf_mlevel None roots" "lookupChain roots vs = Some n"
    then have "wf_mnode (chainParent None vs) (last vs) n" by (rule lookupChain_wf)
    then show "(mn_key n, mn_value n, mn_title n)
          = (last vs, last vs, titleFor (chainParent None vs) (last vs))"
      unfolding wf_mnode_iff by simp
  qed
  show ?thesis
  proof (cases "lookupChain roots1 vs")
    case None
    with same have "lookupChain roots2 vs = None" by simp
    with None show ?thesis
      by (simp add: r1(1) r2(1) tn_find_converted[OF r1(3)] tn_find_converted[OF r2(3)])
  next
    case (Some n1)
    with same obtain n2 where n2: "lookupChain roots2 vs = Some n2" by auto
    from content[OF r1(3) Some] content[OF r2(3) n2] Some n2 show ?thesis
      by (simp add: r1(1) r2(1) tn_find_converted[OF r1(3)] tn_find_converted[OF r2(3)])
  qed
qed

section \<open>Inputs for which buildTreeSelectData returns\<close>

text \<open>When every part of every option is plain, no step raises and
  \<^verbatim>\<open>Object.prototype\<close> is left as it was.\<close>

lemma walkParts_returns:
  "\<forall>part \<in> set parts. plain_part pt part
   \<Longrightarrow> \<exists>cursor'. walkParts d lbl seen parts pt cursor = Inr (cursor', pt)"
proof (induction parts arbitrary: seen cursor)
  case Nil
  then show ?case by simp
next
  case (Cons part rest)
  let ?pathValue = "js_join (seen @ [part]) d"
  let ?cursor1 = "if \<not> truthy (getProperty pt cursor part)
                  then AList.update part (createNode part ?pathValue) cursor else cursor"
  from Cons.prems have plain: "plain_part pt part" and rest: "\<forall>p \<in> set rest. plain_part pt p"
    by simp_all
  have "\<exists>node. getProperty pt ?cursor1 part = OwnNode node"
  proof (cases "map_of cursor part")
    case (Some node)
    then show ?thesis by (simp add: getProperty_def)
  next
    case None
    with plain have "\<not> truthy (getProperty pt cursor part)"
      by (auto simp: getProperty_def plain_part_def inherits_def)
    then show ?thesis by (simp add: getProperty_def update_conv')
  qed
  then obtain node where node: "getProperty pt ?cursor1 part = OwnNode node" ..
  let ?node1 = "if rest = [] then InternalNode lbl (in_value node) (in_key node) (in_children node)
                else node"
  from Cons.IH[OF rest, of "seen @ [part]" "in_children ?node1"] obtain children where
    "walkParts d lbl (seen @ [part]) rest pt (in_children ?node1) = Inr (children, pt)" ..
  with node show ?case
    by (simp add: Let_def)
qed

lemma forEachOption_returns:
  "\<forall>option \<in> set options. \<forall>part \<in> set (partsOf d option). plain_part pt part
   \<Longrightarrow> \<exists>root'. forEachOption d options (root, pt) = Inr (root', pt)"
proof (induction options arbitrary: root)
  case Nil
  then show ?case by simp
next
  case (Cons option options)
  from Cons.prems have "\<forall>part \<in> set (partsOf d option). plain_part pt part" by simp
  from walkParts_returns[OF this, of d "label option" "[]" root]
  have "\<exists>root1. addOption d (root, pt) option = Inr (root1, pt)"
    by (cases "partsOf d option = []") (simp_all add: addOption_partsOf)
  then obtain root1 where "addOption d (root, pt) option = Inr (root1, pt)" ..
  moreover from Cons.prems Cons.IH[of root1] obtain root' where
    "forEachOption d options (root1, pt) = Inr (root', pt)" by auto
  ultimately show ?case by simp
qed

lemma buildTreeSelectData_returns:
  "\<forall>option \<in> set options. \<forall>part \<in> set (partsOf d option). plain_part pt part
   \<Longrightarrow> \<exists>tree. buildTreeSelectData c pt options d = Inr (tree, pt)"
  using forEachOption_returns[of options d pt "[]"]
  by (auto simp: buildTreeSelectData_def)

section \<open>The number of nodes\<close>

text \<open>
  A level whose keys are distinct has as many nodes below it as it has paths with
  a node: the paths through different keys differ in their first part.
\<close>

lemma set_tl_prefixes: "set (tl (prefixes xs)) = {p. p \<noteq> [] \<and> prefix p xs}"
proof -
  have "prefixes xs = [] # tl (prefixes xs)" by (cases xs) simp_all
  moreover have "distinct (prefixes xs)" by (rule distinct_prefixes)
  ultimately have "[] \<notin> set (tl (prefixes xs))"
    "set (prefixes xs) = insert [] (set (tl (prefixes xs)))"
    by (metis distinct.simps(2), metis list.simps(15))
  then show ?thesis using set_prefixes_eq[of xs] by auto
qed

lemma sum_list_map_mset:
  fixes f :: "'a \<Rightarrow> nat"
  assumes "mset xs = mset ys"
  shows "sum_list (map f xs) = sum_list (map f ys)"
proof -
  have "sum_list (map f xs) = sum_mset (mset (map f xs))" by (simp only: sum_mset_sum_list)
  also have "\<dots> = sum_mset (mset (map f ys))" using assms by (simp only: mset_map)
  also have "\<dots> = sum_list (map f ys)" by (simp only: sum_mset_sum_list)
  finally show ?thesis .
qed

subsection \<open>In buildTreeData\<close>

lemma chains_Nil [simp]: "chainSet [] = {}"
  by (simp add: chainSet_def)

lemma Nil_notin_chainSet [simp]: "[] \<notin> chainSet m"
  by (simp add: chainSet_def)

lemma chains_Cons:
  assumes "k \<notin> fst ` set m"
  shows "chainSet ((k, n) # m) = insert [k] ((#) k ` chainSet (mn_childrenMap n)) \<union> chainSet m"
proof (rule set_eqI)
  fix p
  from assms have none: "map_of m k = None" by (simp add: map_of_eq_None_iff)
  show "p \<in> chainSet ((k, n) # m)
        \<longleftrightarrow> p \<in> insert [k] ((#) k ` chainSet (mn_childrenMap n)) \<union> chainSet m"
  proof (cases p)
    case Nil
    then show ?thesis by (auto simp: chainSet_def)
  next
    case (Cons k' ks)
    show ?thesis
    proof (cases "k' = k")
      case True
      with Cons none show ?thesis by (auto simp: chainSet_def)
    next
      case False
      with Cons show ?thesis by (auto simp: chainSet_def)
    qed
  qed
qed

lemma chains_heads: "p \<in> chainSet m \<Longrightarrow> hd p \<in> fst ` set m"
proof -
  assume "p \<in> chainSet m"
  then obtain k ks n where "p = k # ks" "map_of m k = Some n"
    by (cases p) (auto simp: chainSet_def split: option.splits)
  then show ?thesis by (auto dest: map_of_SomeD intro: rev_image_eqI)
qed

lemma card_chains_Cons:
  assumes "k \<notin> fst ` set m" "finite (chainSet (mn_childrenMap n))" "finite (chainSet m)"
  shows "card (chainSet ((k, n) # m)) = Suc (card (chainSet (mn_childrenMap n))) + card (chainSet m)"
proof -
  let ?A = "insert [k] ((#) k ` chainSet (mn_childrenMap n))"
  have fin: "finite ?A" using assms(2) by simp
  have "[k] \<notin> (#) k ` chainSet (mn_childrenMap n)" by auto
  then have cA: "card ?A = Suc (card (chainSet (mn_childrenMap n)))"
    using assms(2) by (simp add: card_image)
  have "?A \<inter> chainSet m = {}"
  proof (rule ccontr)
    assume "?A \<inter> chainSet m \<noteq> {}"
    then obtain p where "p \<in> ?A" "p \<in> chainSet m" by auto
    from \<open>p \<in> ?A\<close> have "hd p = k" by auto
    with chains_heads[OF \<open>p \<in> chainSet m\<close>] assms(1) show False by simp
  qed
  with fin assms(3) have "card (?A \<union> chainSet m) = card ?A + card (chainSet m)"
    by (rule card_Un_disjoint)
  then show ?thesis
    unfolding chains_Cons[OF assms(1)] cA by simp
qed

lemma chains_level:
  assumes "distinct (map fst m)"
    and "\<forall>kn \<in> set m. finite (chainSet (mn_childrenMap (snd kn)))
           \<and> Suc (card (chainSet (mn_childrenMap (snd kn)))) = mn_count (snd kn)"
  shows "finite (chainSet m) \<and> card (chainSet m) = sum_list (map (\<lambda>kn. mn_count (snd kn)) m)"
  using assms
proof (induction m)
  case Nil
  then show ?case by simp
next
  case (Cons kn m)
  obtain k n where kn: "kn = (k, n)" by (cases kn)
  from Cons.prems kn have fresh: "k \<notin> fst ` set m" and dist: "distinct (map fst m)"
    and n: "finite (chainSet (mn_childrenMap n))" "Suc (card (chainSet (mn_childrenMap n))) = mn_count n"
    and rest: "\<forall>kn \<in> set m. finite (chainSet (mn_childrenMap (snd kn)))
           \<and> Suc (card (chainSet (mn_childrenMap (snd kn)))) = mn_count (snd kn)"
    by auto
  from Cons.IH[OF dist rest] have IH: "finite (chainSet m)"
    "card (chainSet m) = sum_list (map (\<lambda>kn. mn_count (snd kn)) m)" by simp_all
  have "finite (chainSet ((k, n) # m))"
    unfolding chains_Cons[OF fresh] using n(1) IH(1) by simp
  with card_chains_Cons[OF fresh n(1) IH(1)] n(2) IH(2) kn show ?case by simp
qed

lemma chains_node:
  "wf_mnode parent k n
   \<Longrightarrow> finite (chainSet (mn_childrenMap n)) \<and> Suc (card (chainSet (mn_childrenMap n))) = mn_count n"
proof (induction n arbitrary: parent k)
  case (MutableNode key v t children)
  from MutableNode.prems have wf: "wf_mlevel (Some k) children"
    unfolding wf_mnode_iff by simp
  have "\<forall>kn \<in> set children. finite (chainSet (mn_childrenMap (snd kn)))
           \<and> Suc (card (chainSet (mn_childrenMap (snd kn)))) = mn_count (snd kn)"
  proof
    fix kn assume kn: "kn \<in> set children"
    with wf have "wf_mnode (Some k) (fst kn) (snd kn)" by (simp add: wf_mlevel_def)
    moreover have "snd kn \<in> Basic_BNFs.snds kn" by (cases kn) simp
    ultimately show "finite (chainSet (mn_childrenMap (snd kn)))
           \<and> Suc (card (chainSet (mn_childrenMap (snd kn)))) = mn_count (snd kn)"
      using MutableNode.IH[OF kn] by blast
  qed
  with wf chains_level[of children] show ?case by (simp add: wf_mlevel_def)
qed

lemma chains_count:
  assumes "wf_mlevel parent m"
  shows "finite (chainSet m) \<and> card (chainSet m) = sum_list (map (\<lambda>kn. mn_count (snd kn)) m)"
proof (rule chains_level)
  from assms show "distinct (map fst m)" by (simp add: wf_mlevel_def)
  show "\<forall>kn \<in> set m. finite (chainSet (mn_childrenMap (snd kn)))
           \<and> Suc (card (chainSet (mn_childrenMap (snd kn)))) = mn_count (snd kn)"
  proof
    fix kn assume "kn \<in> set m"
    with assms have "wf_mnode parent (fst kn) (snd kn)" by (simp add: wf_mlevel_def)
    then show "finite (chainSet (mn_childrenMap (snd kn)))
           \<and> Suc (card (chainSet (mn_childrenMap (snd kn)))) = mn_count (snd kn)"
      by (rule chains_node)
  qed
qed

lemma tn_count_convertNode: "tn_count (convertNode n) = mn_count n"
proof (induction n)
  case (MutableNode key v t children)
  have "map (\<lambda>kn. tn_count (convertNode (snd kn))) children
        = map (\<lambda>kn. mn_count (snd kn)) children"
  proof (rule map_cong[OF refl])
    fix kn assume kn: "kn \<in> set children"
    moreover have "snd kn \<in> Basic_BNFs.snds kn" by (cases kn) simp
    ultimately show "tn_count (convertNode (snd kn)) = mn_count (snd kn)"
      by (rule MutableNode.IH)
  qed
  note eq = this
  show ?case by (simp add: comp_def eq)
qed

lemma buildTreeData_count:
  "sum_list (map tn_count (buildTreeData values))
   = length (remdups (concat (map (\<lambda>path. tl (prefixes (entryChain path))) values)))"
proof -
  obtain roots where r: "buildTreeData values = map (\<lambda>kn. convertNode (snd kn)) roots"
    "roots = foldl addPath [] values" "wf_mlevel None roots"
    by (rule buildTreeData_roots)
  have "chainSet roots = set (concat (map (\<lambda>path. tl (prefixes (entryChain path))) values))"
    unfolding chainSet_def r(2) foldl_addPath_chain by (auto simp: set_tl_prefixes)
  then have "card (chainSet roots)
      = length (remdups (concat (map (\<lambda>path. tl (prefixes (entryChain path))) values)))"
    by (simp add: length_remdups_card_conv)
  with chains_count[OF r(3)] show ?thesis
    by (simp add: r(1) comp_def tn_count_convertNode)
qed

subsection \<open>In buildTreeSelectData\<close>

lemma paths_Nil [simp]: "pathSet [] = {}"
  by (simp add: pathSet_def)

lemma Nil_notin_pathSet [simp]: "[] \<notin> pathSet m"
  by (simp add: pathSet_def)

lemma paths_Cons:
  assumes "k \<notin> fst ` set m"
  shows "pathSet ((k, n) # m) = insert [k] ((#) k ` pathSet (in_children n)) \<union> pathSet m"
proof (rule set_eqI)
  fix p
  from assms have none: "map_of m k = None" by (simp add: map_of_eq_None_iff)
  show "p \<in> pathSet ((k, n) # m)
        \<longleftrightarrow> p \<in> insert [k] ((#) k ` pathSet (in_children n)) \<union> pathSet m"
  proof (cases p)
    case Nil
    then show ?thesis by (auto simp: pathSet_def)
  next
    case (Cons k' ks)
    show ?thesis
    proof (cases "k' = k")
      case True
      with Cons none show ?thesis by (auto simp: pathSet_def)
    next
      case False
      with Cons show ?thesis by (auto simp: pathSet_def)
    qed
  qed
qed

lemma paths_heads: "p \<in> pathSet m \<Longrightarrow> hd p \<in> fst ` set m"
proof -
  assume "p \<in> pathSet m"
  then obtain k ks n where "p = k # ks" "map_of m k = Some n"
    by (cases p) (auto simp: pathSet_def split: option.splits)
  then show ?thesis by (auto dest: map_of_SomeD intro: rev_image_eqI)
qed

lemma card_paths_Cons:
  assumes "k \<notin> fst ` set m" "finite (pathSet (in_children n))" "finite (pathSet m)"
  shows "card (pathSet ((k, n) # m)) = Suc (card (pathSet (in_children n))) + card (pathSet m)"
proof -
  let ?A = "insert [k] ((#) k ` pathSet (in_children n))"
  have fin: "finite ?A" using assms(2) by simp
  have "[k] \<notin> (#) k ` pathSet (in_children n)" by auto
  then have cA: "card ?A = Suc (card (pathSet (in_children n)))"
    using assms(2) by (simp add: card_image)
  have "?A \<inter> pathSet m = {}"
  proof (rule ccontr)
    assume "?A \<inter> pathSet m \<noteq> {}"
    then obtain p where "p \<in> ?A" "p \<in> pathSet m" by auto
    from \<open>p \<in> ?A\<close> have "hd p = k" by auto
    with paths_heads[OF \<open>p \<in> pathSet m\<close>] assms(1) show False by simp
  qed
  with fin assms(3) have "card (?A \<union> pathSet m) = card ?A + card (pathSet m)"
    by (rule card_Un_disjoint)
  then show ?thesis
    unfolding paths_Cons[OF assms(1)] cA by simp
qed

lemma paths_level:
  assumes "distinct (map fst m)"
    and "\<forall>kn \<in> set m. finite (pathSet (in_children (snd kn)))
           \<and> Suc (card (pathSet (in_children (snd kn)))) = in_count (snd kn)"
  shows "finite (pathSet m) \<and> card (pathSet m) = sum_list (map (\<lambda>kn. in_count (snd kn)) m)"
  using assms
proof (induction m)
  case Nil
  then show ?case by simp
next
  case (Cons kn m)
  obtain k n where kn: "kn = (k, n)" by (cases kn)
  from Cons.prems kn have fresh: "k \<notin> fst ` set m" and dist: "distinct (map fst m)"
    and n: "finite (pathSet (in_children n))" "Suc (card (pathSet (in_children n))) = in_count n"
    and rest: "\<forall>kn \<in> set m. finite (pathSet (in_children (snd kn)))
           \<and> Suc (card (pathSet (in_children (snd kn)))) = in_count (snd kn)"
    by auto
  from Cons.IH[OF dist rest] have IH: "finite (pathSet m)"
    "card (pathSet m) = sum_list (map (\<lambda>kn. in_count (snd kn)) m)" by simp_all
  have "finite (pathSet ((k, n) # m))"
    unfolding paths_Cons[OF fresh] using n(1) IH(1) by simp
  with card_paths_Cons[OF fresh n(1) IH(1)] n(2) IH(2) kn show ?case by simp
qed


lemma paths_node:
  "wf_node d seen k n
   \<Longrightarrow> finite (pathSet (in_children n)) \<and> Suc (card (pathSet (in_children n))) = in_count n"
proof (induction n arbitrary: seen k)
  case (InternalNode t v key children)
  from InternalNode.prems have wf: "wf_level d (seen @ [k]) children"
    by (simp add: wf_level_def)
  have "\<forall>kn \<in> set children. finite (pathSet (in_children (snd kn)))
           \<and> Suc (card (pathSet (in_children (snd kn)))) = in_count (snd kn)"
  proof
    fix kn assume kn: "kn \<in> set children"
    with wf have "wf_node d (seen @ [k]) (fst kn) (snd kn)" by (simp add: wf_level_def)
    moreover have "snd kn \<in> Basic_BNFs.snds kn" by (cases kn) simp
    ultimately show "finite (pathSet (in_children (snd kn)))
           \<and> Suc (card (pathSet (in_children (snd kn)))) = in_count (snd kn)"
      using InternalNode.IH[OF kn] by blast
  qed
  with wf paths_level[of children] show ?case by (simp add: wf_level_def)
qed

lemma paths_count:
  assumes "wf_level d seen cursor"
  shows "finite (pathSet cursor)
         \<and> card (pathSet cursor) = sum_list (map (\<lambda>kn. in_count (snd kn)) cursor)"
proof (rule paths_level)
  from assms show "distinct (map fst cursor)" by (simp add: wf_level_def)
  show "\<forall>kn \<in> set cursor. finite (pathSet (in_children (snd kn)))
           \<and> Suc (card (pathSet (in_children (snd kn)))) = in_count (snd kn)"
  proof
    fix kn assume "kn \<in> set cursor"
    with assms have "wf_node d seen (fst kn) (snd kn)" by (simp add: wf_level_def)
    then show "finite (pathSet (in_children (snd kn)))
           \<and> Suc (card (pathSet (in_children (snd kn)))) = in_count (snd kn)"
      by (rule paths_node)
  qed
qed

lemma sd_count_toSortedTree:
  "sum_list (map sd_count (toSortedTree c nodeMap))
   = sum_list (map (\<lambda>kn. in_count (snd kn)) nodeMap)"
proof (induction c nodeMap rule: toSortedTree.induct)
  case (1 c nodeMap)
  let ?L = "js_sort (\<lambda>a b. c (in_value a) (in_value b)) (Object_values nodeMap)"
  have node: "\<And>n. n \<in> set ?L \<Longrightarrow> sd_count (dataNode c n) = in_count n"
  proof -
    fix n assume "n \<in> set ?L"
    from "1.IH"[OF this] show "sd_count (dataNode c n) = in_count n"
      by (cases n) (simp add: dataNode_def)
  qed
  have eq: "map (\<lambda>n. sd_count (dataNode c n)) ?L = map in_count ?L"
    by (rule map_cong[OF refl]) (rule node)
  have "map sd_count (toSortedTree c nodeMap) = map (\<lambda>n. sd_count (dataNode c n)) ?L"
    unfolding toSortedTree_map[of c nodeMap] by (simp only: map_map comp_def)
  with eq have "sum_list (map sd_count (toSortedTree c nodeMap)) = sum_list (map in_count ?L)"
    by (simp only:)
  also have "\<dots> = sum_list (map in_count (map snd nodeMap))"
    by (rule sum_list_map_mset) (simp add: mset_js_sort mset_Object_values)
  also have "\<dots> = sum_list (map (\<lambda>kn. in_count (snd kn)) nodeMap)"
    by (simp only: map_map comp_def)
  finally show ?case .
qed

lemma buildTreeSelectData_count:
  assumes "buildTreeSelectData c pt options d = Inr (tree, pt')"
  shows "sum_list (map sd_count tree)
     = length (remdups (filter (\<lambda>p. \<not> inherits (last p))
         (concat (map (\<lambda>option. tl (prefixes (partsOf d option))) options))))"
  using assms
proof (cases rule: buildTreeSelectData_Inr)
  case (1 root)
  have "pathSet root = set (filter (\<lambda>p. \<not> inherits (last p))
         (concat (map (\<lambda>option. tl (prefixes (partsOf d option))) options)))"
  proof (rule set_eqI)
    fix p
    show "p \<in> pathSet root \<longleftrightarrow> p \<in> set (filter (\<lambda>p. \<not> inherits (last p))
         (concat (map (\<lambda>option. tl (prefixes (partsOf d option))) options)))"
    proof
      assume "p \<in> pathSet root"
      then obtain n where n: "lookupPath root p = Some n" by (auto simp: pathSet_def)
      from lookupPath_wf[OF 1(3) n] n have "\<not> inherits (last p)" "p \<noteq> []" by auto
      moreover from forEachOption_only[OF 1(1), of p] n
      obtain option where "option \<in> set options" "prefix p (partsOf d option)" by auto
      ultimately show "p \<in> set (filter (\<lambda>p. \<not> inherits (last p))
         (concat (map (\<lambda>option. tl (prefixes (partsOf d option))) options)))"
        by (auto simp: set_tl_prefixes)
    next
      assume "p \<in> set (filter (\<lambda>p. \<not> inherits (last p))
         (concat (map (\<lambda>option. tl (prefixes (partsOf d option))) options)))"
      then obtain option where "option \<in> set options" "prefix p (partsOf d option)" "p \<noteq> []"
        "\<not> inherits (last p)"
        by (auto simp: set_tl_prefixes)
      from forEachOption_reaches[OF 1(1) this] show "p \<in> pathSet root"
        by (simp add: pathSet_def)
    qed
  qed
  then have "card (pathSet root) = length (remdups (filter (\<lambda>p. \<not> inherits (last p))
         (concat (map (\<lambda>option. tl (prefixes (partsOf d option))) options))))"
    by (simp add: length_remdups_card_conv)
  with paths_count[OF 1(3)] sd_count_toSortedTree[of c root] 1(2) show ?thesis by simp
qed

section \<open>The properties\<close>

subsection \<open>The values of the nodes along a walk\<close>

text \<open>
  C1, as amended: the node that the walk creates or reuses at depth \<open>i\<close> is found in
  the returned tree by following the chain of the values assembled up to that
  depth, and its value and key are the value assembled at depth \<open>i\<close>:
  \<^item> in \<^verbatim>\<open>buildTreeSelectData\<close>, the first \<open>i + 1\<close> parts joined with the delimiter
    (where part \<open>i\<close> does not name a property of \<^verbatim>\<open>Object.prototype\<close>: there the
    walk creates and reuses no node);
  \<^item> in \<^verbatim>\<open>buildTreeData\<close>, for a path without \<open>/\<close>, the first \<open>k + 1\<close> segments joined
    with \<open>.\<close>; for a path with \<open>/\<close>, a leading \<open>/\<close> followed by the first \<open>k + 1\<close>
    segments joined with \<open>/\<close>.
\<close>

theorem node_values_along_walk:
  "(buildTreeSelectData localeCompare protoTitle options delimiter = Inr (tree, protoTitle')
      \<longrightarrow> option \<in> set options \<longrightarrow> i < length (partsOf delimiter option)
      \<longrightarrow> \<not> inherits (partsOf delimiter option ! i)
      \<longrightarrow> (\<exists>n. sd_find tree
                   (map (\<lambda>j. js_join (take (Suc j) (partsOf delimiter option)) delimiter) [0..<Suc i])
                 = Some n
               \<and> sd_value n = js_join (take (Suc i) (partsOf delimiter option)) delimiter
               \<and> sd_key n = sd_value n))
   \<and> (path \<in> set values \<longrightarrow> k < length (segmentsOf path)
      \<longrightarrow> (\<exists>n. tn_find (buildTreeData values)
                   (map (\<lambda>j. if CHR ''/'' \<in> set path
                              then ''/'' @ js_join (take (Suc j) (segmentsOf path)) ''/''
                              else js_join (take (Suc j) (segmentsOf path)) ''.'') [0..<Suc k])
                 = Some n
               \<and> tn_value n = (if CHR ''/'' \<in> set path
                                then ''/'' @ js_join (take (Suc k) (segmentsOf path)) ''/''
                                else js_join (take (Suc k) (segmentsOf path)) ''.'')
               \<and> tn_key n = tn_value n))"
proof (intro conjI impI)
  assume "buildTreeSelectData localeCompare protoTitle options delimiter = Inr (tree, protoTitle')"
    "option \<in> set options" "i < length (partsOf delimiter option)"
    "\<not> inherits (partsOf delimiter option ! i)"
  then show "\<exists>n. sd_find tree
                   (map (\<lambda>j. js_join (take (Suc j) (partsOf delimiter option)) delimiter) [0..<Suc i])
                 = Some n
               \<and> sd_value n = js_join (take (Suc i) (partsOf delimiter option)) delimiter
               \<and> sd_key n = sd_value n"
    by (rule buildTreeSelectData_node_at)
next
  assume a: "path \<in> set values" "k < length (segmentsOf path)"
  then have ne: "segmentsOf path \<noteq> []" by auto
  let ?f = "\<lambda>j. if CHR ''/'' \<in> set path
                 then ''/'' @ js_join (take (Suc j) (segmentsOf path)) ''/''
                 else js_join (take (Suc j) (segmentsOf path)) ''.''"
  have c: "entryChain path = map ?f [0..<length (segmentsOf path)]"
    by (rule entryChain_segments[OF ne])
  have "take (Suc k) (entryChain path) = map ?f [0..<Suc k]"
    unfolding c using a(2) by (rule take_upt_map)
  moreover have "entryChain path ! k = ?f k"
    unfolding c using a(2) by simp
  ultimately show "\<exists>n. tn_find (buildTreeData values) (map ?f [0..<Suc k]) = Some n
      \<and> tn_value n = ?f k \<and> tn_key n = tn_value n"
    using buildTreeData_node_at[OF a] by simp
qed

text \<open>An instance of the theorem, with its hypotheses met.\<close>

theorem node_values_along_walk_witness:
  "buildTreeSelectData codeUnitCompare None
     [\<lparr>label = ''Helsinki'', val = (String ''a/b/c'' :: int js_value)\<rparr>] ''/''
   = Inr ([TreeSelectDataNode ''a'' ''a'' ''a'' True
            [TreeSelectDataNode ''b'' ''a/b'' ''a/b'' True
              [TreeSelectDataNode ''Helsinki'' ''a/b/c'' ''a/b/c'' True []]]], None)
   \<and> map_option sd_value
        (sd_find [TreeSelectDataNode ''a'' ''a'' ''a'' True
            [TreeSelectDataNode ''b'' ''a/b'' ''a/b'' True
              [TreeSelectDataNode ''Helsinki'' ''a/b/c'' ''a/b/c'' True []]]]
           [''a'', ''a/b'', ''a/b/c'']) = Some ''a/b/c''
   \<and> map_option tn_value (tn_find (buildTreeData [''a/b/c'', ''x.y'']) [''/a'', ''/a/b''])
       = Some ''/a/b''
   \<and> map_option tn_value (tn_find (buildTreeData [''a/b/c'', ''x.y'']) [''x'', ''x.y''])
       = Some ''x.y''"
proof -
  let ?option = "\<lparr>label = ''Helsinki'', val = (String ''a/b/c'' :: int js_value)\<rparr>"
  let ?tree = "[TreeSelectDataNode ''a'' ''a'' ''a'' True
            [TreeSelectDataNode ''b'' ''a/b'' ''a/b'' True
              [TreeSelectDataNode ''Helsinki'' ''a/b/c'' ''a/b/c'' True []]]]"
  have e: "buildTreeSelectData codeUnitCompare None [?option] ''/'' = Inr (?tree, None)"
    by code_simp
  have p: "partsOf ''/'' ?option = [''a'', ''b'', ''c'']" by code_simp
  have ni: "\<not> inherits ''c''" by code_simp
  have c1: "map (\<lambda>j. js_join (take (Suc j) [''a'', ''b'', ''c'']) ''/'') [0..<Suc 2]
            = [''a'', ''a/b'', ''a/b/c'']"
    by code_simp
  have s1: "segmentsOf ''a/b/c'' = [''a'', ''b'', ''c'']" and s2: "segmentsOf ''x.y'' = [''x'', ''y'']"
    by code_simp+
  have c2: "map (\<lambda>j. ''/'' @ js_join (take (Suc j) [''a'', ''b'', ''c'']) ''/'') [0..<Suc 1]
            = [''/a'', ''/a/b'']"
    by code_simp
  have c3: "map (\<lambda>j. js_join (take (Suc j) [''x'', ''y'']) ''.'') [0..<Suc 1] = [''x'', ''x.y'']"
    by code_simp
  have t1: "\<exists>n. sd_find ?tree [''a'', ''a/b'', ''a/b/c''] = Some n \<and> sd_value n = ''a/b/c''"
    using node_values_along_walk[THEN conjunct1, of codeUnitCompare None "[?option]" "''/''" ?tree None ?option 2]
      e p ni c1 by auto
  have t2: "\<exists>n. tn_find (buildTreeData [''a/b/c'', ''x.y'']) [''/a'', ''/a/b''] = Some n
               \<and> tn_value n = ''/a/b''"
    using node_values_along_walk[THEN conjunct2, of "''a/b/c''" "[''a/b/c'', ''x.y'']" 1]
      s1 c2 by auto
  have t3: "\<exists>n. tn_find (buildTreeData [''a/b/c'', ''x.y'']) [''x'', ''x.y''] = Some n
               \<and> tn_value n = ''x.y''"
    using node_values_along_walk[THEN conjunct2, of "''x.y''" "[''a/b/c'', ''x.y'']" 1]
      s2 c3 by auto
  from e t1 t2 t3 show ?thesis by auto
qed

text \<open>
  As stated, C1 has the values \<^verbatim>\<open>a\<close>, \<^verbatim>\<open>a/b\<close>, \<^verbatim>\<open>a/b/c\<close> for \<^verbatim>\<open>buildTreeData(["a/b/c"])\<close>:
  the joins of the first segments. The values of the chain are \<^verbatim>\<open>/a\<close>, \<^verbatim>\<open>/a/b\<close>,
  \<^verbatim>\<open>/a/b/c\<close>, with a leading delimiter.
\<close>

theorem node_values_along_walk_counterexample:
  "buildTreeData [''a/b/c'']
   = [TreeNode ''/a'' ''/a'' ''a''
       [TreeNode ''/a/b'' ''/a/b'' ''b'' [TreeNode ''/a/b/c'' ''/a/b/c'' ''c'' []]]]
   \<and> js_join (take 1 (segmentsOf ''a/b/c'')) ''/'' = ''a''
   \<and> js_join (take 2 (segmentsOf ''a/b/c'')) ''/'' = ''a/b''
   \<and> js_join (take 3 (segmentsOf ''a/b/c'')) ''/'' = ''a/b/c''"
  by code_simp

subsection \<open>One node for each prefix\<close>

text \<open>
  In the tree that either builder returns, the values of the roots are distinct,
  and so are the values of the children of every node: no list of siblings has
  two nodes with the same value. The number of the nodes is the number of the
  distinct non-empty prefixes of the entries: in \<^verbatim>\<open>buildTreeData\<close> of their chains of
  values; in \<^verbatim>\<open>buildTreeSelectData\<close> of their parts, without the prefixes whose last
  part names a property of \<^verbatim>\<open>Object.prototype\<close>, for which the walk creates no node.
  A node is created once and reused: a node that is at a path before an entry is
  processed is at that path afterwards, with the same key and value (in
  \<^verbatim>\<open>buildTreeData\<close> the same title too).
\<close>

theorem no_duplicate_siblings:
  "(buildTreeSelectData localeCompare protoTitle options delimiter = Inr (tree, protoTitle')
      \<longrightarrow> sd_distinct tree
          \<and> sum_list (map sd_count tree)
            = length (remdups (filter (\<lambda>p. \<not> inherits (last p))
                (concat (map (\<lambda>option. tl (prefixes (partsOf delimiter option))) options)))))
   \<and> tn_distinct (buildTreeData values)
   \<and> sum_list (map tn_count (buildTreeData values))
     = length (remdups (concat (map (\<lambda>path. tl (prefixes (entryChain path))) values)))
   \<and> (addOption delimiter (root, protoTitle) option = Inr (root', protoTitle'')
      \<longrightarrow> lookupPath root p = Some n
      \<longrightarrow> (\<exists>n'. lookupPath root' p = Some n' \<and> in_key n' = in_key n \<and> in_value n' = in_value n))
   \<and> (lookupChain roots q = Some m
      \<longrightarrow> (\<exists>m'. lookupChain (addPath roots path) q = Some m' \<and> mn_key m' = mn_key m
                \<and> mn_value m' = mn_value m \<and> mn_title m' = mn_title m))"
proof (intro conjI impI)
  assume "buildTreeSelectData localeCompare protoTitle options delimiter = Inr (tree, protoTitle')"
  then show "sd_distinct tree"
  proof (cases rule: buildTreeSelectData_Inr)
    case (1 root)
    with toSortedTree_distinct[OF 1(3), of localeCompare] show ?thesis by simp
  qed
next
  assume "buildTreeSelectData localeCompare protoTitle options delimiter = Inr (tree, protoTitle')"
  then show "sum_list (map sd_count tree)
            = length (remdups (filter (\<lambda>p. \<not> inherits (last p))
                (concat (map (\<lambda>option. tl (prefixes (partsOf delimiter option))) options))))"
    by (rule buildTreeSelectData_count)
next
  obtain roots where r: "buildTreeData values = map (\<lambda>kn. convertNode (snd kn)) roots"
    "roots = foldl addPath [] values" "wf_mlevel None roots"
    by (rule buildTreeData_roots)
  from converted_distinct[OF r(3)] r(1) show "tn_distinct (buildTreeData values)" by simp
next
  show "sum_list (map tn_count (buildTreeData values))
     = length (remdups (concat (map (\<lambda>path. tl (prefixes (entryChain path))) values)))"
    by (rule buildTreeData_count)
next
  assume "addOption delimiter (root, protoTitle) option = Inr (root', protoTitle'')"
    "lookupPath root p = Some n"
  then show "\<exists>n'. lookupPath root' p = Some n' \<and> in_key n' = in_key n \<and> in_value n' = in_value n"
    by (rule addOption_reuses)
next
  assume "lookupChain roots q = Some m"
  then show "\<exists>m'. lookupChain (addPath roots path) q = Some m' \<and> mn_key m' = mn_key m
                \<and> mn_value m' = mn_value m \<and> mn_title m' = mn_title m"
    by (rule addPath_reuses)
qed

text \<open>An instance of the theorem, with its hypotheses met.\<close>

theorem no_duplicate_siblings_witness:
  "buildTreeSelectData codeUnitCompare None
     [\<lparr>label = ''B'', val = (String ''a/b'' :: int js_value)\<rparr>,
      \<lparr>label = ''C'', val = String ''a/c''\<rparr>,
      \<lparr>label = ''B2'', val = String ''a/b''\<rparr>] ''/''
   = Inr ([TreeSelectDataNode ''a'' ''a'' ''a'' True
            [TreeSelectDataNode ''B2'' ''a/b'' ''a/b'' True [],
             TreeSelectDataNode ''C'' ''a/c'' ''a/c'' True []]], None)
   \<and> sd_distinct [TreeSelectDataNode ''a'' ''a'' ''a'' True
            [TreeSelectDataNode ''B2'' ''a/b'' ''a/b'' True [],
             TreeSelectDataNode ''C'' ''a/c'' ''a/c'' True []]]
   \<and> remdups (filter (\<lambda>p. \<not> inherits (last p))
        (concat (map (\<lambda>option. tl (prefixes (partsOf ''/'' option)))
           [\<lparr>label = ''B'', val = (String ''a/b'' :: int js_value)\<rparr>,
            \<lparr>label = ''C'', val = String ''a/c''\<rparr>,
            \<lparr>label = ''B2'', val = String ''a/b''\<rparr>])))
       = [[''a'', ''c''], [''a''], [''a'', ''b'']]
   \<and> sum_list (map sd_count [TreeSelectDataNode ''a'' ''a'' ''a'' True
            [TreeSelectDataNode ''B2'' ''a/b'' ''a/b'' True [],
             TreeSelectDataNode ''C'' ''a/c'' ''a/c'' True []]]) = 3
   \<and> buildTreeData [''a.b'', ''a.c'', ''a.b'']
       = [TreeNode ''a'' ''a'' ''a''
            [TreeNode ''a.b'' ''a.b'' ''b'' [], TreeNode ''a.c'' ''a.c'' ''c'' []]]
   \<and> tn_distinct (buildTreeData [''a.b'', ''a.c'', ''a.b''])
   \<and> remdups (concat (map (\<lambda>path. tl (prefixes (entryChain path))) [''a.b'', ''a.c'', ''a.b'']))
       = [[''a'', ''a.c''], [''a''], [''a'', ''a.b'']]
   \<and> sum_list (map tn_count (buildTreeData [''a.b'', ''a.c'', ''a.b''])) = 3
   \<and> addOption ''/'' ([(''a'', InternalNode ''a'' ''a'' ''a'' [])], None)
        \<lparr>label = ''B'', val = (String ''a/b'' :: int js_value)\<rparr>
       = Inr ([(''a'', InternalNode ''a'' ''a'' ''a'' [(''b'', InternalNode ''B'' ''a/b'' ''a/b'' [])])],
              None)
   \<and> map_option in_value
        (lookupPath [(''a'', InternalNode ''a'' ''a'' ''a'' [(''b'', InternalNode ''B'' ''a/b'' ''a/b'' [])])]
           [''a'']) = Some ''a''
   \<and> map_option mn_value
        (lookupChain (addPath [(''a'', MutableNode ''a'' ''a'' ''a'' [])] ''a.b'') [''a'']) = Some ''a''"
proof -
  let ?options = "[\<lparr>label = ''B'', val = (String ''a/b'' :: int js_value)\<rparr>,
      \<lparr>label = ''C'', val = String ''a/c''\<rparr>,
      \<lparr>label = ''B2'', val = String ''a/b''\<rparr>]"
  let ?tree = "[TreeSelectDataNode ''a'' ''a'' ''a'' True
            [TreeSelectDataNode ''B2'' ''a/b'' ''a/b'' True [],
             TreeSelectDataNode ''C'' ''a/c'' ''a/c'' True []]]"
  let ?root = "[(''a'', InternalNode ''a'' ''a'' ''a'' [])]"
  let ?root' = "[(''a'', InternalNode ''a'' ''a'' ''a'' [(''b'', InternalNode ''B'' ''a/b'' ''a/b'' [])])]"
  let ?option = "\<lparr>label = ''B'', val = (String ''a/b'' :: int js_value)\<rparr>"
  let ?roots = "[(''a'', MutableNode ''a'' ''a'' ''a'' [])]"
  have e: "buildTreeSelectData codeUnitCompare None ?options ''/'' = Inr (?tree, None)"
    by code_simp
  have t: "buildTreeData [''a.b'', ''a.c'', ''a.b'']
       = [TreeNode ''a'' ''a'' ''a''
            [TreeNode ''a.b'' ''a.b'' ''b'' [], TreeNode ''a.c'' ''a.c'' ''c'' []]]"
    by code_simp
  have a: "addOption ''/'' (?root, None) ?option = Inr (?root', None)"
    by code_simp
  have l: "lookupPath ?root [''a''] = Some (InternalNode ''a'' ''a'' ''a'' [])"
    by simp
  have c: "lookupChain ?roots [''a''] = Some (MutableNode ''a'' ''a'' ''a'' [])"
    by simp
  have ps: "remdups (filter (\<lambda>p. \<not> inherits (last p))
        (concat (map (\<lambda>option. tl (prefixes (partsOf ''/'' option))) ?options)))
       = [[''a'', ''c''], [''a''], [''a'', ''b'']]"
    by code_simp
  have cs: "remdups (concat (map (\<lambda>path. tl (prefixes (entryChain path))) [''a.b'', ''a.c'', ''a.b'']))
       = [[''a'', ''a.c''], [''a''], [''a'', ''a.b'']]"
    by code_simp
  note inst = no_duplicate_siblings[of codeUnitCompare None ?options "''/''" ?tree None
      "[''a.b'', ''a.c'', ''a.b'']" ?root ?option ?root' None "[''a'']"
      "InternalNode ''a'' ''a'' ''a'' []" ?roots "[''a'']" "MutableNode ''a'' ''a'' ''a'' []" "''a.b''"]
  from inst e have 1: "sd_distinct ?tree" by blast
  from inst e have "sum_list (map sd_count ?tree)
     = length (remdups (filter (\<lambda>p. \<not> inherits (last p))
        (concat (map (\<lambda>option. tl (prefixes (partsOf ''/'' option))) ?options))))" by blast
  then have 5: "sum_list (map sd_count ?tree) = 3" unfolding ps by simp
  from inst have 2: "tn_distinct (buildTreeData [''a.b'', ''a.c'', ''a.b''])" by blast
  from inst have "sum_list (map tn_count (buildTreeData [''a.b'', ''a.c'', ''a.b'']))
     = length (remdups (concat (map (\<lambda>path. tl (prefixes (entryChain path))) [''a.b'', ''a.c'', ''a.b''])))"
    by blast
  then have 6: "sum_list (map tn_count (buildTreeData [''a.b'', ''a.c'', ''a.b''])) = 3"
    unfolding cs by simp
  from inst a l have 3: "map_option in_value (lookupPath ?root' [''a'']) = Some ''a''" by auto
  from inst c have 4: "map_option mn_value (lookupChain (addPath ?roots ''a.b'') [''a'']) = Some ''a''"
    by auto
  from e t a 1 2 3 4 5 6 ps cs show ?thesis by blast
qed

text \<open>
  C2: the tree of either builder is claimed to contain exactly one node for each
  distinct prefix of the paths. For the one option with the value \<^verbatim>\<open>constructor\<close>,
  whose only part is \<^verbatim>\<open>constructor\<close>, \<^verbatim>\<open>buildTreeSelectData\<close> returns the empty tree:
  \<^verbatim>\<open>cursor['constructor']\<close> reads the inherited function \<^verbatim>\<open>Object\<close>, which is truthy, so
  no node is created, and the label is assigned to the \<^verbatim>\<open>title\<close> of that function.
  \<^verbatim>\<open>buildTreeData\<close>, which keeps the children in a \<^verbatim>\<open>Map\<close>, returns one node for the
  same path.
\<close>

theorem buildTreeSelectData_inherited_leaf_no_node:
  "buildTreeSelectData localeCompare protoTitle
     [\<lparr>label = ''x'', val = String ''constructor''\<rparr>] ''/'' = Inr ([], protoTitle)
   \<and> partsOf ''/'' \<lparr>label = ''x'', val = String ''constructor''\<rparr> = [''constructor'']
   \<and> buildTreeData [''constructor'']
       = [TreeNode ''constructor'' ''constructor'' ''constructor'' []]"
proof (intro conjI)
  show "buildTreeSelectData localeCompare protoTitle
     [\<lparr>label = ''x'', val = String ''constructor''\<rparr>] ''/'' = Inr ([], protoTitle)"
    by (simp add: buildTreeSelectData_def addOption_def js_trim_def is_white_space_def js_split_def
        filter_Boolean_def getProperty_def Object_prototype_functions_def Let_def
        toSortedTree_map Object_values_def js_sort_def)
  show "partsOf ''/'' \<lparr>label = ''x'', val = String ''constructor''\<rparr> = [''constructor'']"
    by code_simp
  show "buildTreeData [''constructor'']
       = [TreeNode ''constructor'' ''constructor'' ''constructor'' []]"
    by code_simp
qed

subsection \<open>The selection payload\<close>

text \<open>
  C3: \<^verbatim>\<open>normalizeTreeSelectValue\<close> maps \<^verbatim>\<open>undefined\<close> to \<^verbatim>\<open>undefined\<close>, \<^verbatim>\<open>null\<close> to \<^verbatim>\<open>null\<close>, a
  string or a number to the list of that one element, a list to the list of its
  elements that are strings or numbers, in their order, and every other value
  (a boolean, an object that is not an array) to \<^verbatim>\<open>null\<close>.
\<close>

theorem normalizeTreeSelectValue_shapes:
  "normalizeTreeSelectValue (Undefined :: 'num js_value) = Undefined
   \<and> normalizeTreeSelectValue (Null :: 'num js_value) = Null
   \<and> normalizeTreeSelectValue (String s :: 'num js_value) = Array [String s]
   \<and> normalizeTreeSelectValue (Number (n :: 'num)) = Array [Number n]
   \<and> normalizeTreeSelectValue (Array (vs :: 'num js_value list))
       = Array (filter (\<lambda>v. (\<exists>s. v = String s) \<or> (\<exists>n. v = Number n)) vs)
   \<and> normalizeTreeSelectValue (Boolean b :: 'num js_value) = Null
   \<and> normalizeTreeSelectValue (Object :: 'num js_value) = Null"
proof -
  have "is_string_or_number = (\<lambda>v :: 'num js_value. (\<exists>s. v = String s) \<or> (\<exists>n. v = Number n))"
  proof
    fix v :: "'num js_value"
    show "is_string_or_number v = ((\<exists>s. v = String s) \<or> (\<exists>n. v = Number n))"
      by (cases v) simp_all
  qed
  then show ?thesis by simp
qed

subsection \<open>The order of the input\<close>

text \<open>
  C4, as amended: for two inputs that are permutations of each other, the trees
  have the same nodes in the same places. Whatever chain of values one follows
  from the roots, either both trees have no node there or both have one, with the
  same key and value; in \<^verbatim>\<open>buildTreeData\<close> with the same title too, so that its two
  trees differ in the order of siblings only. For \<^verbatim>\<open>buildTreeSelectData\<close> this is
  about two calls that return, whatever \<^verbatim>\<open>Object.prototype.title\<close> was before each:
  the same input run twice is one case. Its titles are left out: they depend on
  the order of the input.
\<close>

theorem same_nodes_for_permuted_input:
  "(mset options1 = mset options2
      \<longrightarrow> buildTreeSelectData localeCompare protoTitle1 options1 delimiter = Inr (tree1, protoTitle1')
      \<longrightarrow> buildTreeSelectData localeCompare protoTitle2 options2 delimiter = Inr (tree2, protoTitle2')
      \<longrightarrow> (\<forall>vs. map_option (\<lambda>n. (sd_key n, sd_value n)) (sd_find tree1 vs)
               = map_option (\<lambda>n. (sd_key n, sd_value n)) (sd_find tree2 vs)))
   \<and> (mset values1 = mset values2
      \<longrightarrow> (\<forall>vs. map_option (\<lambda>n. (tn_key n, tn_value n, tn_title n))
                  (tn_find (buildTreeData values1) vs)
               = map_option (\<lambda>n. (tn_key n, tn_value n, tn_title n))
                  (tn_find (buildTreeData values2) vs)))"
proof (intro conjI impI allI)
  fix vs
  assume m: "mset options1 = mset options2"
    and b1: "buildTreeSelectData localeCompare protoTitle1 options1 delimiter = Inr (tree1, protoTitle1')"
    and b2: "buildTreeSelectData localeCompare protoTitle2 options2 delimiter = Inr (tree2, protoTitle2')"
  from m have s: "set options1 = set options2" by (rule mset_eq_setD)
  show "map_option (\<lambda>n. (sd_key n, sd_value n)) (sd_find tree1 vs)
        = map_option (\<lambda>n. (sd_key n, sd_value n)) (sd_find tree2 vs)"
  proof (cases "sd_find tree1 vs")
    case (Some m1)
    from buildTreeSelectData_same_chains[OF s b1 b2 Some] Some show ?thesis by auto
  next
    case None
    show ?thesis
    proof (cases "sd_find tree2 vs")
      case (Some m2)
      from buildTreeSelectData_same_chains[OF s[symmetric] b2 b1 Some] None show ?thesis by auto
    next
      case n2: None
      with None show ?thesis by simp
    qed
  qed
next
  fix vs
  assume "mset values1 = mset values2"
  then have "set values1 = set values2" by (rule mset_eq_setD)
  then show "map_option (\<lambda>n. (tn_key n, tn_value n, tn_title n)) (tn_find (buildTreeData values1) vs)
        = map_option (\<lambda>n. (tn_key n, tn_value n, tn_title n)) (tn_find (buildTreeData values2) vs)"
    by (rule buildTreeData_same_chains)
qed

text \<open>An instance of the theorem, with its hypotheses met.\<close>

theorem same_nodes_for_permuted_input_witness:
  "mset [\<lparr>label = ''B'', val = (String ''a/b'' :: int js_value)\<rparr>, \<lparr>label = ''C'', val = String ''a/c''\<rparr>]
     = mset [\<lparr>label = ''C'', val = (String ''a/c'' :: int js_value)\<rparr>, \<lparr>label = ''B'', val = String ''a/b''\<rparr>]
   \<and> buildTreeSelectData codeUnitCompare None
        [\<lparr>label = ''B'', val = (String ''a/b'' :: int js_value)\<rparr>, \<lparr>label = ''C'', val = String ''a/c''\<rparr>] ''/''
      = Inr ([TreeSelectDataNode ''a'' ''a'' ''a'' True
               [TreeSelectDataNode ''B'' ''a/b'' ''a/b'' True [],
                TreeSelectDataNode ''C'' ''a/c'' ''a/c'' True []]], None)
   \<and> buildTreeSelectData codeUnitCompare None
        [\<lparr>label = ''C'', val = (String ''a/c'' :: int js_value)\<rparr>, \<lparr>label = ''B'', val = String ''a/b''\<rparr>] ''/''
      = Inr ([TreeSelectDataNode ''a'' ''a'' ''a'' True
               [TreeSelectDataNode ''B'' ''a/b'' ''a/b'' True [],
                TreeSelectDataNode ''C'' ''a/c'' ''a/c'' True []]], None)
   \<and> mset [''a/b'', ''a/c''] = mset [''a/c'', ''a/b'']
   \<and> buildTreeData [''a/b'', ''a/c'']
      = [TreeNode ''/a'' ''/a'' ''a''
          [TreeNode ''/a/b'' ''/a/b'' ''b'' [], TreeNode ''/a/c'' ''/a/c'' ''c'' []]]
   \<and> buildTreeData [''a/c'', ''a/b'']
      = [TreeNode ''/a'' ''/a'' ''a''
          [TreeNode ''/a/c'' ''/a/c'' ''c'' [], TreeNode ''/a/b'' ''/a/b'' ''b'' []]]
   \<and> map_option (\<lambda>n. (tn_key n, tn_value n, tn_title n))
        (tn_find (buildTreeData [''a/b'', ''a/c'']) [''/a'', ''/a/c''])
      = map_option (\<lambda>n. (tn_key n, tn_value n, tn_title n))
        (tn_find (buildTreeData [''a/c'', ''a/b'']) [''/a'', ''/a/c''])"
proof -
  have m1: "mset [\<lparr>label = ''B'', val = (String ''a/b'' :: int js_value)\<rparr>, \<lparr>label = ''C'', val = String ''a/c''\<rparr>]
     = mset [\<lparr>label = ''C'', val = (String ''a/c'' :: int js_value)\<rparr>, \<lparr>label = ''B'', val = String ''a/b''\<rparr>]"
    by (simp add: add_mset_commute)
  have m2: "mset [''a/b'', ''a/c''] = mset [''a/c'', ''a/b'']"
    by (simp add: add_mset_commute)
  have e1: "buildTreeSelectData codeUnitCompare None
        [\<lparr>label = ''B'', val = (String ''a/b'' :: int js_value)\<rparr>, \<lparr>label = ''C'', val = String ''a/c''\<rparr>] ''/''
      = Inr ([TreeSelectDataNode ''a'' ''a'' ''a'' True
               [TreeSelectDataNode ''B'' ''a/b'' ''a/b'' True [],
                TreeSelectDataNode ''C'' ''a/c'' ''a/c'' True []]], None)"
    by code_simp
  have e2: "buildTreeSelectData codeUnitCompare None
        [\<lparr>label = ''C'', val = (String ''a/c'' :: int js_value)\<rparr>, \<lparr>label = ''B'', val = String ''a/b''\<rparr>] ''/''
      = Inr ([TreeSelectDataNode ''a'' ''a'' ''a'' True
               [TreeSelectDataNode ''B'' ''a/b'' ''a/b'' True [],
                TreeSelectDataNode ''C'' ''a/c'' ''a/c'' True []]], None)"
    by code_simp
  have e3: "buildTreeData [''a/b'', ''a/c'']
      = [TreeNode ''/a'' ''/a'' ''a''
          [TreeNode ''/a/b'' ''/a/b'' ''b'' [], TreeNode ''/a/c'' ''/a/c'' ''c'' []]]"
    by code_simp
  have e4: "buildTreeData [''a/c'', ''a/b'']
      = [TreeNode ''/a'' ''/a'' ''a''
          [TreeNode ''/a/c'' ''/a/c'' ''c'' [], TreeNode ''/a/b'' ''/a/b'' ''b'' []]]"
    by code_simp
  from same_nodes_for_permuted_input[THEN conjunct2, of "[''a/b'', ''a/c'']" "[''a/c'', ''a/b'']"] m2
  have "map_option (\<lambda>n. (tn_key n, tn_value n, tn_title n))
        (tn_find (buildTreeData [''a/b'', ''a/c'']) [''/a'', ''/a/c''])
      = map_option (\<lambda>n. (tn_key n, tn_value n, tn_title n))
        (tn_find (buildTreeData [''a/c'', ''a/b'']) [''/a'', ''/a/c''])"
    by blast
  with m1 m2 e1 e2 e3 e4 show ?thesis by blast
qed

text \<open>
  As stated, C4 confines every difference between the two trees to the order of
  the children. The two inputs below are permutations of each other, and the
  trees of \<^verbatim>\<open>buildTreeSelectData\<close> differ in the title of their only node.
\<close>

theorem same_nodes_for_permuted_input_counterexample:
  "mset [\<lparr>label = ''A'', val = (String ''x'' :: int js_value)\<rparr>, \<lparr>label = ''B'', val = String ''x''\<rparr>]
     = mset [\<lparr>label = ''B'', val = (String ''x'' :: int js_value)\<rparr>, \<lparr>label = ''A'', val = String ''x''\<rparr>]
   \<and> buildTreeSelectData codeUnitCompare None
        [\<lparr>label = ''A'', val = (String ''x'' :: int js_value)\<rparr>, \<lparr>label = ''B'', val = String ''x''\<rparr>] ''/''
      = Inr ([TreeSelectDataNode ''B'' ''x'' ''x'' True []], None)
   \<and> buildTreeSelectData codeUnitCompare None
        [\<lparr>label = ''B'', val = (String ''x'' :: int js_value)\<rparr>, \<lparr>label = ''A'', val = String ''x''\<rparr>] ''/''
      = Inr ([TreeSelectDataNode ''A'' ''x'' ''x'' True []], None)"
proof -
  have "mset [\<lparr>label = ''A'', val = (String ''x'' :: int js_value)\<rparr>, \<lparr>label = ''B'', val = String ''x''\<rparr>]
     = mset [\<lparr>label = ''B'', val = (String ''x'' :: int js_value)\<rparr>, \<lparr>label = ''A'', val = String ''x''\<rparr>]"
    by (simp add: add_mset_commute)
  moreover have "buildTreeSelectData codeUnitCompare None
        [\<lparr>label = ''A'', val = (String ''x'' :: int js_value)\<rparr>, \<lparr>label = ''B'', val = String ''x''\<rparr>] ''/''
      = Inr ([TreeSelectDataNode ''B'' ''x'' ''x'' True []], None)"
    by code_simp
  moreover have "buildTreeSelectData codeUnitCompare None
        [\<lparr>label = ''B'', val = (String ''x'' :: int js_value)\<rparr>, \<lparr>label = ''A'', val = String ''x''\<rparr>] ''/''
      = Inr ([TreeSelectDataNode ''A'' ''x'' ''x'' True []], None)"
    by code_simp
  ultimately show ?thesis by blast
qed

subsection \<open>Order of the siblings in the sorted variant\<close>

text \<open>
  C5, as amended: in the tree that \<^verbatim>\<open>buildTreeSelectData\<close> returns, the root list and the
  children of every node are in ascending order of their value as \<^verbatim>\<open>localeCompare\<close>
  compares the values: the comparison that \<^verbatim>\<open>sort\<close> is given. This holds for every
  consistent comparison, so for the collation of every locale.
\<close>

theorem buildTreeSelectData_sorted:
  assumes "consistent_comparator localeCompare"
    and "buildTreeSelectData localeCompare protoTitle options delimiter = Inr (tree, protoTitle')"
  shows "sd_sorted localeCompare tree"
  using assms(2)
proof (cases rule: buildTreeSelectData_Inr)
  case (1 root)
  with toSortedTree_sorted[OF assms(1)] show ?thesis by simp
qed

text \<open>An instance of the theorem, with its hypotheses met.\<close>

theorem buildTreeSelectData_sorted_witness:
  "consistent_comparator asciiLocaleCompare
   \<and> buildTreeSelectData asciiLocaleCompare None
        [\<lparr>label = ''Helsinki'', val = String ''company/europe/finland/helsinki''\<rparr>,
         \<lparr>label = ''Espoo'', val = (String ''company/europe/finland/Espoo'' :: int js_value)\<rparr>,
         \<lparr>label = ''Asia'', val = String ''company/Asia''\<rparr>,
         \<lparr>label = ''Beta'', val = String ''Beta''\<rparr>,
         \<lparr>label = ''alpha'', val = String ''alpha''\<rparr>] ''/''
       = Inr ([TreeSelectDataNode ''alpha'' ''alpha'' ''alpha'' True [],
               TreeSelectDataNode ''Beta'' ''Beta'' ''Beta'' True [],
               TreeSelectDataNode ''company'' ''company'' ''company'' True
                [TreeSelectDataNode ''Asia'' ''company/Asia'' ''company/Asia'' True [],
                 TreeSelectDataNode ''europe'' ''company/europe'' ''company/europe'' True
                  [TreeSelectDataNode ''finland'' ''company/europe/finland''
                     ''company/europe/finland'' True
                    [TreeSelectDataNode ''Espoo'' ''company/europe/finland/Espoo''
                       ''company/europe/finland/Espoo'' True [],
                     TreeSelectDataNode ''Helsinki'' ''company/europe/finland/helsinki''
                       ''company/europe/finland/helsinki'' True []]]]], None)
   \<and> sd_sorted asciiLocaleCompare
        [TreeSelectDataNode ''alpha'' ''alpha'' ''alpha'' True [],
         TreeSelectDataNode ''Beta'' ''Beta'' ''Beta'' True [],
         TreeSelectDataNode ''company'' ''company'' ''company'' True
          [TreeSelectDataNode ''Asia'' ''company/Asia'' ''company/Asia'' True [],
           TreeSelectDataNode ''europe'' ''company/europe'' ''company/europe'' True
            [TreeSelectDataNode ''finland'' ''company/europe/finland''
               ''company/europe/finland'' True
              [TreeSelectDataNode ''Espoo'' ''company/europe/finland/Espoo''
                 ''company/europe/finland/Espoo'' True [],
               TreeSelectDataNode ''Helsinki'' ''company/europe/finland/helsinki''
                 ''company/europe/finland/helsinki'' True []]]]]"
proof -
  have e: "buildTreeSelectData asciiLocaleCompare None
        [\<lparr>label = ''Helsinki'', val = String ''company/europe/finland/helsinki''\<rparr>,
         \<lparr>label = ''Espoo'', val = (String ''company/europe/finland/Espoo'' :: int js_value)\<rparr>,
         \<lparr>label = ''Asia'', val = String ''company/Asia''\<rparr>,
         \<lparr>label = ''Beta'', val = String ''Beta''\<rparr>,
         \<lparr>label = ''alpha'', val = String ''alpha''\<rparr>] ''/''
       = Inr ([TreeSelectDataNode ''alpha'' ''alpha'' ''alpha'' True [],
               TreeSelectDataNode ''Beta'' ''Beta'' ''Beta'' True [],
               TreeSelectDataNode ''company'' ''company'' ''company'' True
                [TreeSelectDataNode ''Asia'' ''company/Asia'' ''company/Asia'' True [],
                 TreeSelectDataNode ''europe'' ''company/europe'' ''company/europe'' True
                  [TreeSelectDataNode ''finland'' ''company/europe/finland''
                     ''company/europe/finland'' True
                    [TreeSelectDataNode ''Espoo'' ''company/europe/finland/Espoo''
                       ''company/europe/finland/Espoo'' True [],
                     TreeSelectDataNode ''Helsinki'' ''company/europe/finland/helsinki''
                       ''company/europe/finland/helsinki'' True []]]]], None)"
    by code_simp
  from buildTreeSelectData_sorted[OF consistent_asciiLocaleCompare e] e consistent_asciiLocaleCompare
  show ?thesis by blast
qed

text \<open>
  As stated, C5 has the siblings in lexicographic order of their values. In that
  order \<^verbatim>\<open>B\<close> goes before \<^verbatim>\<open>a\<close>; the builder returns \<^verbatim>\<open>a\<close> before \<^verbatim>\<open>B\<close>, the order of
  \<^verbatim>\<open>localeCompare\<close>.
\<close>

theorem buildTreeSelectData_sorted_counterexample:
  "buildTreeSelectData asciiLocaleCompare None
     [\<lparr>label = ''B'', val = (String ''B'' :: int js_value)\<rparr>,
      \<lparr>label = ''a'', val = String ''a''\<rparr>] ''/''
   = Inr ([TreeSelectDataNode ''a'' ''a'' ''a'' True [],
           TreeSelectDataNode ''B'' ''B'' ''B'' True []], None)
   \<and> codeUnitCompare ''a'' ''B'' = 1
   \<and> asciiLocaleCompare ''a'' ''B'' = - 1"
  by code_simp

subsection \<open>The delimiter of the raw-string builder\<close>

text \<open>
  C6: \<^verbatim>\<open>buildTreeData\<close> takes no delimiter, and every entry is split by its own,
  whatever the other entries are. For a path with a \<^verbatim>\<open>/\<close> among its code units the
  segments are the non-empty pieces between the \<^verbatim>\<open>/\<close>, and the returned tree has a
  node for each of them, with the segment as its title, along the chain of the
  values assembled with \<^verbatim>\<open>/\<close>. For a path without \<^verbatim>\<open>/\<close> the segments are the non-empty
  pieces between the \<^verbatim>\<open>.\<close>, and the values are assembled with \<^verbatim>\<open>.\<close>. (A path with no
  segment is the subject of C9.)
\<close>

theorem buildTreeData_delimiter_per_entry:
  assumes "path \<in> set values"
  shows "(CHR ''/'' \<in> set path \<longrightarrow> k < length (filter_Boolean (js_split path ''/''))
          \<longrightarrow> (\<exists>n. tn_find (buildTreeData values)
                      (map (\<lambda>j. ''/'' @ js_join (take (Suc j) (filter_Boolean (js_split path ''/''))) ''/'')
                         [0..<Suc k]) = Some n
                  \<and> tn_value n = ''/'' @ js_join (take (Suc k) (filter_Boolean (js_split path ''/''))) ''/''
                  \<and> tn_title n = filter_Boolean (js_split path ''/'') ! k))
       \<and> (CHR ''/'' \<notin> set path \<longrightarrow> k < length (filter_Boolean (js_split path ''.''))
          \<longrightarrow> (\<exists>n. tn_find (buildTreeData values)
                      (map (\<lambda>j. js_join (take (Suc j) (filter_Boolean (js_split path ''.''))) ''.'')
                         [0..<Suc k]) = Some n
                  \<and> tn_value n = js_join (take (Suc k) (filter_Boolean (js_split path ''.''))) ''.''
                  \<and> tn_title n = filter_Boolean (js_split path ''.'') ! k))"
proof (intro conjI impI)
  assume slash: "CHR ''/'' \<in> set path" and k: "k < length (filter_Boolean (js_split path ''/''))"
  let ?segs = "filter_Boolean (js_split path ''/'')"
  let ?f = "\<lambda>j. ''/'' @ js_join (take (Suc j) ?segs) ''/''"
  from slash have s: "segmentsOf path = ?segs" by (simp add: segmentsOf_def)
  with k have k': "k < length (segmentsOf path)" and ne: "segmentsOf path \<noteq> []" by auto
  have c: "entryChain path = map ?f [0..<length ?segs]"
    using entryChain_segments[OF ne] slash s by simp
  have "take (Suc k) (entryChain path) = map ?f [0..<Suc k]"
    unfolding c using k by (rule take_upt_map)
  moreover have "entryChain path ! k = ?f k"
    unfolding c using k by simp
  ultimately show "\<exists>n. tn_find (buildTreeData values) (map ?f [0..<Suc k]) = Some n
      \<and> tn_value n = ?f k \<and> tn_title n = ?segs ! k"
    using buildTreeData_node_title_at[OF assms k'] s by auto
next
  assume slash: "CHR ''/'' \<notin> set path" and k: "k < length (filter_Boolean (js_split path ''.''))"
  let ?segs = "filter_Boolean (js_split path ''.'')"
  let ?f = "\<lambda>j. js_join (take (Suc j) ?segs) ''.''"
  from slash have s: "segmentsOf path = ?segs" by (simp add: segmentsOf_def)
  with k have k': "k < length (segmentsOf path)" and ne: "segmentsOf path \<noteq> []" by auto
  have c: "entryChain path = map ?f [0..<length ?segs]"
    using entryChain_segments[OF ne] slash s by simp
  have "take (Suc k) (entryChain path) = map ?f [0..<Suc k]"
    unfolding c using k by (rule take_upt_map)
  moreover have "entryChain path ! k = ?f k"
    unfolding c using k by simp
  ultimately show "\<exists>n. tn_find (buildTreeData values) (map ?f [0..<Suc k]) = Some n
      \<and> tn_value n = ?f k \<and> tn_title n = ?segs ! k"
    using buildTreeData_node_title_at[OF assms k'] s by auto
qed

text \<open>An instance of the theorem, with its hypotheses met.\<close>

theorem buildTreeData_delimiter_per_entry_witness:
  "buildTreeData [''a.b/c'', ''a.b'']
     = [TreeNode ''/a.b'' ''/a.b'' ''a.b'' [TreeNode ''/a.b/c'' ''/a.b/c'' ''c'' []],
        TreeNode ''a'' ''a'' ''a'' [TreeNode ''a.b'' ''a.b'' ''b'' []]]
   \<and> filter_Boolean (js_split ''a.b/c'' ''/'') = [''a.b'', ''c'']
   \<and> filter_Boolean (js_split ''a.b'' ''.'') = [''a'', ''b'']
   \<and> map_option (\<lambda>n. (tn_value n, tn_title n))
        (tn_find (buildTreeData [''a.b/c'', ''a.b'']) [''/a.b'', ''/a.b/c'']) = Some (''/a.b/c'', ''c'')
   \<and> map_option (\<lambda>n. (tn_value n, tn_title n))
        (tn_find (buildTreeData [''a.b/c'', ''a.b'']) [''a'', ''a.b'']) = Some (''a.b'', ''b'')"
proof -
  have t: "buildTreeData [''a.b/c'', ''a.b'']
     = [TreeNode ''/a.b'' ''/a.b'' ''a.b'' [TreeNode ''/a.b/c'' ''/a.b/c'' ''c'' []],
        TreeNode ''a'' ''a'' ''a'' [TreeNode ''a.b'' ''a.b'' ''b'' []]]"
    by code_simp
  have s1: "filter_Boolean (js_split ''a.b/c'' ''/'') = [''a.b'', ''c'']"
    and s2: "filter_Boolean (js_split ''a.b'' ''.'') = [''a'', ''b'']"
    by code_simp+
  have c1: "map (\<lambda>j. ''/'' @ js_join (take (Suc j) [''a.b'', ''c'']) ''/'') [0..<Suc 1]
            = [''/a.b'', ''/a.b/c'']"
    by code_simp
  have c2: "map (\<lambda>j. js_join (take (Suc j) [''a'', ''b'']) ''.'') [0..<Suc 1] = [''a'', ''a.b'']"
    by code_simp
  have v1: "''/'' @ js_join (take (Suc 1) [''a.b'', ''c'']) ''/'' = ''/a.b/c''"
    and v2: "js_join (take (Suc 1) [''a'', ''b'']) ''.'' = ''a.b''"
    by code_simp+
  have m1: "''a.b/c'' \<in> set [''a.b/c'', ''a.b'']" and m2: "''a.b'' \<in> set [''a.b/c'', ''a.b'']"
    by simp_all
  have i1: "CHR ''/'' \<in> set ''a.b/c''" and i2: "CHR ''/'' \<notin> set ''a.b''"
    by simp_all
  have t1: "\<exists>n. tn_find (buildTreeData [''a.b/c'', ''a.b'']) [''/a.b'', ''/a.b/c''] = Some n
               \<and> tn_value n = ''/a.b/c'' \<and> tn_title n = ''c''"
    using buildTreeData_delimiter_per_entry[OF m1, THEN conjunct1, of 1] i1
    unfolding s1 c1 v1 by simp
  have t2: "\<exists>n. tn_find (buildTreeData [''a.b/c'', ''a.b'']) [''a'', ''a.b''] = Some n
               \<and> tn_value n = ''a.b'' \<and> tn_title n = ''b''"
    using buildTreeData_delimiter_per_entry[OF m2, THEN conjunct2, of 1] i2
    unfolding s2 c2 v2 by simp
  from t s1 s2 t1 t2 show ?thesis by auto
qed

subsection \<open>Parts that name a property of Object.prototype\<close>

text \<open>
  C7: \<^verbatim>\<open>buildTreeSelectData\<close> is claimed never to raise. The option with the value
  \<^verbatim>\<open>constructor/a\<close> raises: \<^verbatim>\<open>cursor['constructor']\<close> reads the inherited function
  \<^verbatim>\<open>Object\<close>, no node is created, the cursor becomes \<^verbatim>\<open>Object.children\<close>, which is
  \<^verbatim>\<open>undefined\<close>, and the read of \<^verbatim>\<open>cursor['a']\<close> is a \<^verbatim>\<open>TypeError\<close>.
\<close>

theorem buildTreeSelectData_inherited_part_TypeError:
  "buildTreeSelectData localeCompare protoTitle
     [\<lparr>label = ''x'', val = String ''constructor/a''\<rparr>] ''/'' = Inl TypeError"
  by (simp add: buildTreeSelectData_def addOption_def js_trim_def is_white_space_def js_split_def
      filter_Boolean_def getProperty_def Object_prototype_functions_def Let_def)

subsection \<open>Titles in the sorted variant\<close>

text \<open>
  One option of \<^verbatim>\<open>buildTreeSelectData\<close> that the loop does not skip and that does not
  raise. The node at the option's parts, if the walk reached one, has the
  option's label as its title, and the walk reaches one unless the last part names
  a property of \<^verbatim>\<open>Object.prototype\<close>. Every node that the walk created before the last
  part (a node at a proper prefix of the parts that was not there before) has its
  own part as its title.
\<close>

theorem addOption_titles:
  assumes "addOption delimiter (root, protoTitle) option = Inr (root', protoTitle')"
    and "partsOf delimiter option \<noteq> []"
  shows "(\<forall>n. lookupPath root' (partsOf delimiter option) = Some n \<longrightarrow> in_title n = label option)
       \<and> (\<not> inherits (last (partsOf delimiter option))
            \<longrightarrow> lookupPath root' (partsOf delimiter option) \<noteq> None)
       \<and> (\<forall>p n. strict_prefix p (partsOf delimiter option) \<longrightarrow> lookupPath root p = None
            \<longrightarrow> lookupPath root' p = Some n \<longrightarrow> in_title n = last p)"
proof (intro conjI allI impI)
  fix n assume "lookupPath root' (partsOf delimiter option) = Some n"
  with assms(1) show "in_title n = label option" by (rule addOption_final_title)
next
  assume "\<not> inherits (last (partsOf delimiter option))"
  with addOption_reaches[OF assms(1), of "partsOf delimiter option"] assms(2)
  show "lookupPath root' (partsOf delimiter option) \<noteq> None" by simp
next
  fix p n
  assume "strict_prefix p (partsOf delimiter option)" "lookupPath root p = None"
    "lookupPath root' p = Some n"
  with addOption_new[OF assms(1), of p n] show "in_title n = last p"
    by (simp add: strict_prefix_def)
qed

text \<open>An instance of the theorem, with its hypotheses met.\<close>

theorem addOption_titles_witness:
  "addOption ''/'' ([(''a'', InternalNode ''a'' ''a'' ''a'' [])], None)
       \<lparr>label = ''Helsinki'', val = (String ''a/b/c'' :: int js_value)\<rparr>
     = Inr ([(''a'', InternalNode ''a'' ''a'' ''a''
               [(''b'', InternalNode ''b'' ''a/b'' ''a/b''
                  [(''c'', InternalNode ''Helsinki'' ''a/b/c'' ''a/b/c'' [])])])], None)
   \<and> partsOf ''/'' \<lparr>label = ''Helsinki'', val = (String ''a/b/c'' :: int js_value)\<rparr>
       = [''a'', ''b'', ''c'']
   \<and> map_option in_title
        (lookupPath [(''a'', InternalNode ''a'' ''a'' ''a''
               [(''b'', InternalNode ''b'' ''a/b'' ''a/b''
                  [(''c'', InternalNode ''Helsinki'' ''a/b/c'' ''a/b/c'' [])])])]
           [''a'', ''b'', ''c'']) = Some ''Helsinki''
   \<and> map_option in_title
        (lookupPath [(''a'', InternalNode ''a'' ''a'' ''a''
               [(''b'', InternalNode ''b'' ''a/b'' ''a/b''
                  [(''c'', InternalNode ''Helsinki'' ''a/b/c'' ''a/b/c'' [])])])]
           [''a'', ''b'']) = Some ''b''"
proof -
  let ?option = "\<lparr>label = ''Helsinki'', val = (String ''a/b/c'' :: int js_value)\<rparr>"
  let ?root = "[(''a'', InternalNode ''a'' ''a'' ''a'' [])]"
  let ?root' = "[(''a'', InternalNode ''a'' ''a'' ''a''
               [(''b'', InternalNode ''b'' ''a/b'' ''a/b''
                  [(''c'', InternalNode ''Helsinki'' ''a/b/c'' ''a/b/c'' [])])])]"
  have e: "addOption ''/'' (?root, None) ?option = Inr (?root', None)"
    by code_simp
  have p: "partsOf ''/'' ?option = [''a'', ''b'', ''c'']"
    by code_simp
  have ni: "\<not> inherits (last (partsOf ''/'' ?option))"
    unfolding p by code_simp
  have old: "lookupPath ?root [''a'', ''b''] = None"
    by simp
  have sp: "strict_prefix [''a'', ''b''] (partsOf ''/'' ?option)"
    unfolding p by (simp add: strict_prefix_def)
  from addOption_titles[OF e] p ni have t: "\<forall>n. lookupPath ?root' [''a'', ''b'', ''c''] = Some n \<longrightarrow> in_title n = ''Helsinki''"
    "lookupPath ?root' [''a'', ''b'', ''c''] \<noteq> None"
    "\<forall>n. lookupPath ?root' [''a'', ''b''] = Some n \<longrightarrow> in_title n = last [''a'', ''b'']"
    using sp old by auto
  from t e p show ?thesis by simp
qed

text \<open>
  C8: every entry is claimed to have the node at its last segment titled with its
  label. The option with the label \<^verbatim>\<open>x\<close> and the value \<^verbatim>\<open>a/toString\<close> has none: the
  node \<^verbatim>\<open>a\<close> is created with its own part as title, \<^verbatim>\<open>cursor['toString']\<close> reads the
  inherited function, which is truthy, so no node is created, and the label is
  assigned to the \<^verbatim>\<open>title\<close> of that function. The returned tree has the node \<^verbatim>\<open>a\<close>
  alone and the label nowhere. With the value \<^verbatim>\<open>a/b\<close> the same option gives the node
  \<^verbatim>\<open>a/b\<close> with the title \<^verbatim>\<open>x\<close>.
\<close>

theorem buildTreeSelectData_inherited_leaf_no_title:
  "buildTreeSelectData localeCompare protoTitle
     [\<lparr>label = ''x'', val = String ''a/toString''\<rparr>] ''/''
   = Inr ([TreeSelectDataNode ''a'' ''a'' ''a'' True []], protoTitle)
   \<and> partsOf ''/'' \<lparr>label = ''x'', val = String ''a/toString''\<rparr> = [''a'', ''toString'']
   \<and> buildTreeSelectData localeCompare protoTitle
     [\<lparr>label = ''x'', val = String ''a/b''\<rparr>] ''/''
   = Inr ([TreeSelectDataNode ''a'' ''a'' ''a'' True
            [TreeSelectDataNode ''x'' ''a/b'' ''a/b'' True []]], protoTitle)"
proof (intro conjI)
  show "buildTreeSelectData localeCompare protoTitle
     [\<lparr>label = ''x'', val = String ''a/toString''\<rparr>] ''/''
   = Inr ([TreeSelectDataNode ''a'' ''a'' ''a'' True []], protoTitle)"
    by (simp add: buildTreeSelectData_def addOption_def js_trim_def is_white_space_def js_split_def
        filter_Boolean_def getProperty_def Object_prototype_functions_def Let_def createNode_def
        toSortedTree_map Object_values_def js_sort_def dataNode_def is_array_index_def)
  show "partsOf ''/'' \<lparr>label = ''x'', val = String ''a/toString''\<rparr> = [''a'', ''toString'']"
    by code_simp
  show "buildTreeSelectData localeCompare protoTitle
     [\<lparr>label = ''x'', val = String ''a/b''\<rparr>] ''/''
   = Inr ([TreeSelectDataNode ''a'' ''a'' ''a'' True
            [TreeSelectDataNode ''x'' ''a/b'' ''a/b'' True []]], protoTitle)"
    by (simp add: buildTreeSelectData_def addOption_def js_trim_def is_white_space_def js_split_def
        filter_Boolean_def getProperty_def Object_prototype_functions_def Let_def createNode_def
        toSortedTree_map Object_values_def js_sort_def dataNode_def is_array_index_def)
qed

subsection \<open>Paths without segments in the raw-string builder\<close>

text \<open>
  C9: a path of \<^verbatim>\<open>buildTreeData\<close> that has no non-empty segment (the empty string, or
  a string of delimiters only) is not dropped: the returned roots have exactly
  one node with the path as its value, and its key and title are the path too; it
  has no children.
\<close>

theorem buildTreeData_degenerate_root:
  assumes "segmentsOf path = []" and "path \<in> set values"
  shows "filter (\<lambda>n. tn_value n = path) (buildTreeData values) = [TreeNode path path path []]"
proof -
  obtain roots where r: "buildTreeData values = map (\<lambda>kn. convertNode (snd kn)) roots"
    "roots = foldl addPath [] values" "wf_mlevel None roots"
    by (rule buildTreeData_roots)
  from assms have "prefix [path] (entryChain path)"
    by (simp add: entryChain_def)
  with assms(2) have "lookupChain roots [path] \<noteq> None"
    unfolding r(2) foldl_addPath_chain by auto
  then obtain n where n: "map_of roots path = Some n"
    by (auto split: option.splits)
  with r(3) have "wf_mnode None path n" by (rule wf_mlevel_map_of)
  with assms(1) have "n = MutableNode path path path []"
    by (cases n) (simp add: titleFor_def)
  with filter_converted[OF r(3), of path] n show ?thesis
    by (simp add: r(1))
qed

text \<open>An instance of the theorem, with its hypotheses met.\<close>

theorem buildTreeData_degenerate_root_witness:
  "segmentsOf ''//'' = [] \<and> ''//'' \<in> set [''a/b'', ''//'', ''a/c'', ''//'']
   \<and> buildTreeData [''a/b'', ''//'', ''a/c'', ''//'']
       = [TreeNode ''/a'' ''/a'' ''a''
            [TreeNode ''/a/b'' ''/a/b'' ''b'' [], TreeNode ''/a/c'' ''/a/c'' ''c'' []],
          TreeNode ''//'' ''//'' ''//'' []]
   \<and> filter (\<lambda>n. tn_value n = ''//'') (buildTreeData [''a/b'', ''//'', ''a/c'', ''//''])
       = [TreeNode ''//'' ''//'' ''//'' []]"
proof -
  have s: "segmentsOf ''//'' = []" by code_simp
  have m: "''//'' \<in> set [''a/b'', ''//'', ''a/c'', ''//'']" by simp
  have e: "buildTreeData [''a/b'', ''//'', ''a/c'', ''//'']
       = [TreeNode ''/a'' ''/a'' ''a''
            [TreeNode ''/a/b'' ''/a/b'' ''b'' [], TreeNode ''/a/c'' ''/a/c'' ''c'' []],
          TreeNode ''//'' ''//'' ''//'' []]"
    by code_simp
  from buildTreeData_degenerate_root[OF s m] s m e show ?thesis by blast
qed

subsection \<open>The last label wins\<close>

text \<open>
  C10, as amended: the node of the returned tree for the parts \<open>p\<close> has the label of
  the last option, in the order of the input, whose parts are \<open>p\<close>: options whose
  trimmed values differ only in empty segments (a doubled, leading or trailing
  delimiter) have the same parts and write the same node. It does not matter
  whether the node was created as the last part of an option or on the way to a
  longer one. (The last part of \<open>p\<close> is taken not to name a property of
  \<^verbatim>\<open>Object.prototype\<close>.)
\<close>

theorem buildTreeSelectData_last_label:
  assumes "buildTreeSelectData localeCompare protoTitle options delimiter = Inr (tree, protoTitle')"
    and "p \<noteq> []" and "labelsFor delimiter options p \<noteq> []" and "\<not> inherits (last p)"
  shows "\<exists>n. sd_find tree (map (\<lambda>j. js_join (take (Suc j) p) delimiter) [0..<length p]) = Some n
           \<and> sd_value n = js_join p delimiter
           \<and> sd_title n = last (labelsFor delimiter options p)"
  using assms(1)
proof (cases rule: buildTreeSelectData_Inr)
  case (1 root)
  from assms(3) obtain option where o: "option \<in> set options" "partsOf delimiter option = p"
    by (auto simp: labelsFor_def filter_empty_conv)
  with forEachOption_reaches[OF 1(1), of option p] assms(2,4)
  obtain n where n: "lookupPath root p = Some n" by auto
  from forEachOption_title[OF 1(1) wf_level_Nil n] assms(3)
  have "in_title n = last (labelsFor delimiter options p)" by simp
  moreover from lookupPath_wf[OF 1(3) n] have "in_value n = js_join p delimiter" by simp
  moreover have "sd_find tree (map (\<lambda>j. js_join (take (Suc j) p) delimiter) [0..<length p])
      = Some (dataNode localeCompare n)"
    using sd_find_toSortedTree[OF 1(3), of localeCompare p] n 1(2)
    by (simp add: pathValues_map)
  ultimately show ?thesis by simp
qed

text \<open>An instance of the theorem, with its hypotheses met.\<close>

theorem buildTreeSelectData_last_label_witness:
  "buildTreeSelectData codeUnitCompare None
     [\<lparr>label = ''Europe'', val = (String ''company/europe/finland'' :: int js_value)\<rparr>,
      \<lparr>label = ''First'', val = String ''company/europe''\<rparr>,
      \<lparr>label = ''Second'', val = String '' company//europe/ ''\<rparr>] ''/''
   = Inr ([TreeSelectDataNode ''company'' ''company'' ''company'' True
            [TreeSelectDataNode ''Second'' ''company/europe'' ''company/europe'' True
              [TreeSelectDataNode ''Europe'' ''company/europe/finland''
                 ''company/europe/finland'' True []]]], None)
   \<and> labelsFor ''/''
        [\<lparr>label = ''Europe'', val = (String ''company/europe/finland'' :: int js_value)\<rparr>,
         \<lparr>label = ''First'', val = String ''company/europe''\<rparr>,
         \<lparr>label = ''Second'', val = String '' company//europe/ ''\<rparr>]
        [''company'', ''europe''] = [''First'', ''Second'']
   \<and> map_option sd_title
        (sd_find [TreeSelectDataNode ''company'' ''company'' ''company'' True
            [TreeSelectDataNode ''Second'' ''company/europe'' ''company/europe'' True
              [TreeSelectDataNode ''Europe'' ''company/europe/finland''
                 ''company/europe/finland'' True []]]]
           [''company'', ''company/europe'']) = Some ''Second''"
proof -
  let ?options = "[\<lparr>label = ''Europe'', val = (String ''company/europe/finland'' :: int js_value)\<rparr>,
      \<lparr>label = ''First'', val = String ''company/europe''\<rparr>,
      \<lparr>label = ''Second'', val = String '' company//europe/ ''\<rparr>]"
  let ?tree = "[TreeSelectDataNode ''company'' ''company'' ''company'' True
            [TreeSelectDataNode ''Second'' ''company/europe'' ''company/europe'' True
              [TreeSelectDataNode ''Europe'' ''company/europe/finland''
                 ''company/europe/finland'' True []]]]"
  have e: "buildTreeSelectData codeUnitCompare None ?options ''/'' = Inr (?tree, None)"
    by code_simp
  have l: "labelsFor ''/'' ?options [''company'', ''europe''] = [''First'', ''Second'']"
    by code_simp
  have ni: "\<not> inherits (last [''company'', ''europe''])"
    by code_simp
  have c: "map (\<lambda>j. js_join (take (Suc j) [''company'', ''europe'']) ''/'') [0..<length [''company'', ''europe'']]
     = [''company'', ''company/europe'']"
    by code_simp
  from buildTreeSelectData_last_label[OF e _ _ ni] l c
  have "\<exists>n. sd_find ?tree [''company'', ''company/europe''] = Some n \<and> sd_title n = ''Second''"
    by auto
  with e l show ?thesis by auto
qed

text \<open>
  As stated, C10 takes the title from the last option with the same trimmed value.
  Of the three options below the first two have the trimmed value \<^verbatim>\<open>a\<close>, with the
  labels \<^verbatim>\<open>X\<close> and \<^verbatim>\<open>Y\<close>; the title of the node \<^verbatim>\<open>a\<close> is the label \<^verbatim>\<open>Z\<close> of the third, whose
  trimmed value \<^verbatim>\<open>a/\<close> is another one with the same parts.
\<close>

theorem buildTreeSelectData_last_label_counterexample:
  "buildTreeSelectData codeUnitCompare None
     [\<lparr>label = ''X'', val = (String ''a'' :: int js_value)\<rparr>,
      \<lparr>label = ''Y'', val = String ''a''\<rparr>,
      \<lparr>label = ''Z'', val = String ''a/''\<rparr>] ''/''
   = Inr ([TreeSelectDataNode ''Z'' ''a'' ''a'' True []], None)
   \<and> js_trim ''a'' = ''a'' \<and> js_trim ''a/'' = ''a/''"
  by code_simp

end
